theory Spec2Isabelle
  imports Main
begin

section \<open>Python values and string helpers\<close>

text \<open>
  The script \<^verbatim>\<open>scripts/wait-for-ci.py\<close> reads three members of every check-run object
  of the decoded JSON response: \<^verbatim>\<open>name\<close>, \<^verbatim>\<open>status\<close> and \<^verbatim>\<open>conclusion\<close>. The hosting
  API sends each of them as a JSON string or as \<^verbatim>\<open>null\<close>, so a member value is a string
  or Python's \<^verbatim>\<open>None\<close>. A check-run object is a Python dict, kept here as its list of
  items and read with \<open>map_of\<close>; a key that is not there makes \<^verbatim>\<open>run["key"]\<close> raise
  \<^verbatim>\<open>KeyError\<close>. Strings are byte strings (UTF-8).
\<close>

datatype pyval = PyNone | PyStr string

type_synonym run = "(string \<times> pyval) list"

text \<open>\<^verbatim>\<open>str(v)\<close>, which is what an f-string field \<^verbatim>\<open>{v}\<close> inserts.\<close>

fun py_str :: "pyval \<Rightarrow> string" where
  "py_str PyNone = ''None''"
| "py_str (PyStr s) = s"

text \<open>Truth value of \<^verbatim>\<open>os.environ.get(k)\<close>: \<^verbatim>\<open>None\<close> and the empty string are false.\<close>

fun truthy :: "string option \<Rightarrow> bool" where
  "truthy None = False"
| "truthy (Some s) = (s \<noteq> [])"

text \<open>\<^verbatim>\<open>a or b\<close> where \<open>a\<close> is \<^verbatim>\<open>os.environ.get(k)\<close> and \<open>b\<close> is a string.\<close>

fun py_or :: "string option \<Rightarrow> string \<Rightarrow> string" where
  "py_or None b = b"
| "py_or (Some a) b = (if a \<noteq> [] then a else b)"

text \<open>\<^verbatim>\<open>s.split(sep)\<close> for a one-character separator: never empty, \<^verbatim>\<open>"".split("/") == [""]\<close>.\<close>

fun py_split :: "char \<Rightarrow> string \<Rightarrow> string list" where
  "py_split sep [] = [[]]"
| "py_split sep (c # cs) =
     (if c = sep then [] # py_split sep cs
      else (case py_split sep cs of
              [] \<Rightarrow> [[c]]
            | w # ws \<Rightarrow> (c # w) # ws))"

text \<open>\<^verbatim>\<open>sep.join(xs)\<close>.\<close>

fun py_join :: "string \<Rightarrow> string list \<Rightarrow> string" where
  "py_join sep [] = []"
| "py_join sep [x] = x"
| "py_join sep (x # y # zs) = x @ sep @ py_join sep (y # zs)"

text \<open>\<^verbatim>\<open>str(n)\<close> for a non-negative integer \<open>n\<close>.\<close>

definition digit_char :: "nat \<Rightarrow> char" where
  "digit_char d = char_of (of_char CHR ''0'' + d)"

fun str_nat :: "nat \<Rightarrow> string" where
  "str_nat n = (if n < 10 then [digit_char n] else str_nat (n div 10) @ [digit_char (n mod 10)])"

declare str_nat.simps [simp del]

section \<open>The world of the script: environment, transport, process\<close>

text \<open>\<^verbatim>\<open>os.environ\<close>.\<close>

type_synonym environ = "string \<rightharpoonup> string"

text \<open>
  What one call \<^verbatim>\<open>requests.get(url, headers=headers)\<close> gives: the call raises
  (\<open>ConnectionFailed\<close>: no response was obtained), or it returns a response with a status
  code and a decoded JSON object, of which the script reads the member \<^verbatim>\<open>check_runs\<close>
  only (\<open>None\<close> when the object has no such member). The transport is the sequence of
  replies of the remote API, indexed by the number of requests issued before. The URL
  and the headers of the request are fixed by the environment and play no part in what
  follows. Bodies that are not a JSON object whose \<^verbatim>\<open>check_runs\<close> is a list of objects are
  not represented: the type of a reply leaves them out.
\<close>

datatype reply = ConnectionFailed | Response int "run list option"

type_synonym transport = "nat \<Rightarrow> reply"

text \<open>
  Exceptions that leave \<^verbatim>\<open>main\<close>: nothing in the script catches any. \<open>RequestException\<close>
  is raised by \<^verbatim>\<open>requests.get\<close>, \<open>HTTPError\<close> by \<^verbatim>\<open>response.raise_for_status()\<close>,
  \<open>KeyError\<close> by a subscript on a check-run dict.
\<close>

datatype exn = RequestException | HTTPError int | KeyError string

text \<open>
  How the process ends: \<^verbatim>\<open>main\<close> returns, \<^verbatim>\<open>sys.exit(n)\<close> is called, or an exception
  propagates out of \<^verbatim>\<open>main\<close>.
\<close>

datatype outcome = Returned | SysExit int | Uncaught exn

text \<open>
  The exit status of the interpreter: 0 when the script runs to its end, the argument of
  \<^verbatim>\<open>sys.exit\<close>, and 1 when an exception is not caught.
\<close>

fun exit_status :: "outcome \<Rightarrow> int" where
  "exit_status Returned = 0"
| "exit_status (SysExit n) = n"
| "exit_status (Uncaught e) = 1"

text \<open>
  The observable effects: the lines printed on standard output, the number of HTTP
  requests issued, and the seconds spent in \<^verbatim>\<open>time.sleep\<close>.
\<close>

record proc =
  stdout :: "string list"
  requests :: nat
  slept :: nat

definition print :: "string \<Rightarrow> proc \<Rightarrow> proc" where
  "print line st = st\<lparr>stdout := stdout st @ [line]\<rparr>"

definition sleep :: "nat \<Rightarrow> proc \<Rightarrow> proc" where
  "sleep secs st = st\<lparr>slept := slept st + secs\<rparr>"

section \<open>Constants of the script\<close>

definition REQUIRED_CHECKS :: "string list" where
  "REQUIRED_CHECKS = [''Lint & Type Check'', ''Server Tests'', ''Client Tests'', ''Build Check'']"

definition GITHUB_API :: string where
  "GITHUB_API = ''https://api.github.com''"

text \<open>The two pictographs of the messages, as their UTF-8 bytes (U+2705 and U+274C).\<close>

definition check_mark :: string where
  "check_mark = [CHR 0xE2, CHR 0x9C, CHR 0x85]"

definition cross_mark :: string where
  "cross_mark = [CHR 0xE2, CHR 0x9D, CHR 0x8C]"

section \<open>Classification of one response (lines 46 to 58)\<close>

text \<open>
  Line 46, \<^verbatim>\<open>checks = {run["name"]: run for run in data.get("check_runs", [])}\<close>:
  the runs are entered into the dict in order, a later one replacing an earlier one
  under the same key; a run with no \<^verbatim>\<open>name\<close> raises \<^verbatim>\<open>KeyError\<close>.
\<close>

fun build_checks :: "run list \<Rightarrow> (pyval \<rightharpoonup> run) \<Rightarrow> exn + (pyval \<rightharpoonup> run)" where
  "build_checks [] checks = Inr checks"
| "build_checks (r # rs) checks =
     (case map_of r ''name'' of
        None \<Rightarrow> Inl (KeyError ''name'')
      | Some n \<Rightarrow> build_checks rs (checks(n \<mapsto> r)))"

text \<open>
  Lines 52 to 58, the body of the loop over the required names, for one name and the two
  lists \<open>pending\<close> and \<open>missing\<close> it appends to. \<^verbatim>\<open>not check\<close> holds for \<^verbatim>\<open>None\<close> and
  for an empty dict. The subscripts \<^verbatim>\<open>check["status"]\<close> and \<^verbatim>\<open>check["conclusion"]\<close>
  raise \<^verbatim>\<open>KeyError\<close> on a dict without the key.
\<close>

definition classify_name ::
  "string \<Rightarrow> (pyval \<rightharpoonup> run) \<Rightarrow> string list \<Rightarrow> string list \<Rightarrow> exn + (string list \<times> string list)"
where
  "classify_name name checks pending missing =
     (case checks (PyStr name) of
        None \<Rightarrow> Inr (pending, missing @ [name])
      | Some check \<Rightarrow>
          if check = [] then Inr (pending, missing @ [name])
          else (case map_of check ''status'' of
                  None \<Rightarrow> Inl (KeyError ''status'')
                | Some status \<Rightarrow>
                    if status \<noteq> PyStr ''completed''
                    then Inr (pending @ [name @ '' ('' @ py_str status @ '')''], missing)
                    else (case map_of check ''conclusion'' of
                            None \<Rightarrow> Inl (KeyError ''conclusion'')
                          | Some conclusion \<Rightarrow>
                              if conclusion \<noteq> PyStr ''success''
                              then Inr (pending @ [name @ '' ('' @ py_str conclusion @ '')''],
                                        missing)
                              else Inr (pending, missing))))"

text \<open>Line 51, \<^verbatim>\<open>for name in REQUIRED_CHECKS\<close>: the body for each name in turn.\<close>

fun classify ::
  "string list \<Rightarrow> (pyval \<rightharpoonup> run) \<Rightarrow> string list \<Rightarrow> string list \<Rightarrow> exn + (string list \<times> string list)"
where
  "classify [] checks pending missing = Inr (pending, missing)"
| "classify (name # names) checks pending missing =
     (case classify_name name checks pending missing of
        Inl e \<Rightarrow> Inl e
      | Inr (pending', missing') \<Rightarrow> classify names checks pending' missing')"

text \<open>
  Lines 46 to 58 together: \<^verbatim>\<open>data.get("check_runs", [])\<close>, the dict, then the loop
  started on two empty lists.
\<close>

fun check_runs :: "run list option \<Rightarrow> run list" where
  "check_runs None = []"
| "check_runs (Some runs) = runs"

definition classify_response :: "string list \<Rightarrow> run list option \<Rightarrow> exn + (string list \<times> string list)" where
  "classify_response required data =
     (case build_checks (check_runs data) Map.empty of
        Inl e \<Rightarrow> Inl e
      | Inr checks \<Rightarrow> classify required checks [] [])"

section \<open>The polling loop (lines 40 to 74)\<close>

text \<open>Lines 65 to 70: the progress notice and the sleep of an attempt that is not the last.\<close>

definition wait_step :: "nat \<Rightarrow> nat \<Rightarrow> string list \<Rightarrow> string list \<Rightarrow> proc \<Rightarrow> proc" where
  "wait_step max_retries attempt pending missing st =
     (let st1 = (if missing \<noteq> []
                 then print (''  Waiting for: '' @ py_join '', '' missing @ '' (not started)'') st
                 else st);
          st2 = (if pending \<noteq> []
                 then print (''  In progress: '' @ py_join '', '' pending) st1
                 else st1);
          st3 = print (''  Retry '' @ str_nat (attempt + 1) @ ''/'' @ str_nat max_retries
                         @ '' in 10s...'') st2
      in sleep 10 st3)"

text \<open>Lines 72 to 73: the two lines printed before \<^verbatim>\<open>sys.exit(1)\<close> on the last attempt.\<close>

definition timeout_report :: "string list \<Rightarrow> string list \<Rightarrow> proc \<Rightarrow> proc" where
  "timeout_report pending missing st =
     print (''  Still missing or failed: '' @ py_join '', '' (pending @ missing))
       (print (cross_mark @ '' Timeout waiting for checks'') st)"

text \<open>
  \<^verbatim>\<open>for attempt in range(max_retries)\<close>: \<open>left\<close> counts the iterations still to run,
  \<open>attempt\<close> is the loop variable. When the range is used up the loop ends and \<^verbatim>\<open>main\<close>
  returns. \<^verbatim>\<open>raise_for_status\<close> raises for the status codes 400 to 599.
\<close>

fun poll :: "string list \<Rightarrow> nat \<Rightarrow> transport \<Rightarrow> nat \<Rightarrow> nat \<Rightarrow> proc \<Rightarrow> outcome \<times> proc" where
  "poll required max_retries tr 0 attempt st = (Returned, st)"
| "poll required max_retries tr (Suc left) attempt st =
     (let st1 = st\<lparr>requests := requests st + 1\<rparr> in
      case tr (requests st) of
        ConnectionFailed \<Rightarrow> (Uncaught RequestException, st1)
      | Response code data \<Rightarrow>
          if 400 \<le> code \<and> code < 600 then (Uncaught (HTTPError code), st1)
          else (case classify_response required data of
                  Inl e \<Rightarrow> (Uncaught e, st1)
                | Inr (pending, missing) \<Rightarrow>
                    if pending = [] \<and> missing = []
                    then (Returned, print (check_mark @ '' All required checks passed!'') st1)
                    else if int attempt < int max_retries - 1
                    then poll required max_retries tr left (attempt + 1)
                           (wait_step max_retries attempt pending missing st1)
                    else (SysExit 1, timeout_report pending missing st1)))"

section \<open>The script (lines 20 to 74)\<close>

text \<open>
  \<open>wait_for_ci\<close> is \<^verbatim>\<open>main\<close> with the list of required checks and the number of
  attempts as parameters; \<open>main\<close> is the script with its own constants.
\<close>

definition wait_for_ci :: "string list \<Rightarrow> nat \<Rightarrow> environ \<Rightarrow> transport \<Rightarrow> outcome \<times> proc" where
  "wait_for_ci required max_retries env tr =
     (let token = env ''GITHUB_TOKEN'';
          owner = env ''GITHUB_REPOSITORY_OWNER'';
          repo = py_or (env ''GITHUB_REPOSITORY_NAME'')
                   (last (py_split CHR ''/''
                      (case env ''GITHUB_REPOSITORY'' of None \<Rightarrow> [] | Some s \<Rightarrow> s)));
          sha = env ''GITHUB_SHA'';
          st0 = \<lparr>stdout = [], requests = 0, slept = 0\<rparr>
      in if \<not> (truthy token \<and> truthy owner \<and> repo \<noteq> [] \<and> truthy sha)
         then (SysExit 1,
               print ''Missing required env vars: GITHUB_TOKEN, GITHUB_REPOSITORY_OWNER, GITHUB_REPOSITORY, GITHUB_SHA'' st0)
         else poll required max_retries tr max_retries 0
                (print (''Required: '' @ py_join '', '' required)
                  (print (''Checking required checks for '' @ the owner @ ''/'' @ repo @ ''@''
                            @ take 7 (the sha)) st0)))"

definition main :: "environ \<Rightarrow> transport \<Rightarrow> outcome \<times> proc" where
  "main env tr = wait_for_ci REQUIRED_CHECKS 30 env tr"

section \<open>Notions used to state the properties\<close>

text \<open>
  The poll result of the specification, section 3: every required name is satisfied,
  pending or missing. The record of a name in a response is the last check-run that
  carries the name; the name is missing when there is none, satisfied when that record is
  completed with outcome success, and pending otherwise.
\<close>

datatype verdict = Satisfied | Pending | Missing

definition named :: "string \<Rightarrow> run list \<Rightarrow> run list" where
  "named name runs = filter (\<lambda>r. map_of r ''name'' = Some (PyStr name)) runs"

definition verdict :: "run list \<Rightarrow> string \<Rightarrow> verdict" where
  "verdict runs name =
     (if named name runs = [] then Missing
      else if map_of (last (named name runs)) ''status'' = Some (PyStr ''completed'')
              \<and> map_of (last (named name runs)) ''conclusion'' = Some (PyStr ''success'')
      then Satisfied
      else Pending)"

text \<open>The test of line 26, \<^verbatim>\<open>all([token, owner, repo, sha])\<close>, on an environment.\<close>

definition repo_of :: "environ \<Rightarrow> string" where
  "repo_of env =
     py_or (env ''GITHUB_REPOSITORY_NAME'')
       (last (py_split CHR ''/'' (case env ''GITHUB_REPOSITORY'' of None \<Rightarrow> [] | Some s \<Rightarrow> s)))"

definition configured :: "environ \<Rightarrow> bool" where
  "configured env =
     (truthy (env ''GITHUB_TOKEN'') \<and> truthy (env ''GITHUB_REPOSITORY_OWNER'')
      \<and> repo_of env \<noteq> [] \<and> truthy (env ''GITHUB_SHA''))"

text \<open>The process when the loop is entered: the two lines of lines 37 and 38 are printed.\<close>

definition started :: "string list \<Rightarrow> environ \<Rightarrow> proc" where
  "started required env =
     \<lparr>stdout = [''Checking required checks for '' @ the (env ''GITHUB_REPOSITORY_OWNER'') @ ''/''
                  @ repo_of env @ ''@'' @ take 7 (the (env ''GITHUB_SHA'')),
                ''Required: '' @ py_join '', '' required],
      requests = 0, slept = 0\<rparr>"

text \<open>
  A reply that keeps the loop waiting: a response that \<^verbatim>\<open>raise_for_status\<close> accepts and
  whose classification leaves a pending or a missing check. A reply that ends the loop
  with success: such a response with both lists empty.
\<close>

fun still_waiting :: "string list \<Rightarrow> reply \<Rightarrow> bool" where
  "still_waiting required ConnectionFailed = False"
| "still_waiting required (Response code data) =
     (\<not> (400 \<le> code \<and> code < 600) \<and>
      (case classify_response required data of
         Inl e \<Rightarrow> False
       | Inr (pending, missing) \<Rightarrow> pending \<noteq> [] \<or> missing \<noteq> []))"

fun all_green :: "string list \<Rightarrow> reply \<Rightarrow> bool" where
  "all_green required ConnectionFailed = False"
| "all_green required (Response code data) =
     (\<not> (400 \<le> code \<and> code < 600) \<and> classify_response required data = Inr ([], []))"

text \<open>A request that fails: no response, or a status code that \<^verbatim>\<open>raise_for_status\<close> rejects.\<close>

fun request_fails :: "reply \<Rightarrow> bool" where
  "request_fails ConnectionFailed = True"
| "request_fails (Response code data) = (400 \<le> code \<and> code < 600)"

text \<open>
  The process after \<open>k\<close> iterations that all went through lines 65 to 70, from the process
  \<open>st\<close> at the start of iteration \<open>attempt\<close>.
\<close>

fun after_waits :: "string list \<Rightarrow> nat \<Rightarrow> transport \<Rightarrow> nat \<Rightarrow> proc \<Rightarrow> nat \<Rightarrow> proc" where
  "after_waits required max_retries tr attempt st 0 = st"
| "after_waits required max_retries tr attempt st (Suc k) =
     after_waits required max_retries tr (attempt + 1)
       (case tr (requests st) of
          ConnectionFailed \<Rightarrow> st
        | Response code data \<Rightarrow>
            (case classify_response required data of
               Inl e \<Rightarrow> st
             | Inr (pending, missing) \<Rightarrow>
                 wait_step max_retries attempt pending missing (st\<lparr>requests := requests st + 1\<rparr>)))
       k"


section \<open>Example inputs\<close>

text \<open>An environment with the four inputs, the repository name given by the combined identifier.\<close>

definition ex_env :: environ where
  "ex_env = [''GITHUB_TOKEN'' \<mapsto> ''ghs_token'', ''GITHUB_REPOSITORY_OWNER'' \<mapsto> ''alex'',
             ''GITHUB_REPOSITORY'' \<mapsto> ''alex/codecollab'',
             ''GITHUB_SHA'' \<mapsto> ''0123456789abcdef0123456789abcdef01234567'']"

definition run_of :: "string \<Rightarrow> pyval \<Rightarrow> pyval \<Rightarrow> run" where
  "run_of name status conclusion =
     [(''name'', PyStr name), (''status'', status), (''conclusion'', conclusion)]"

text \<open>All four required checks completed with success.\<close>

definition ex_green :: "run list option" where
  "ex_green = Some [run_of ''Lint & Type Check'' (PyStr ''completed'') (PyStr ''success''),
                    run_of ''Server Tests'' (PyStr ''completed'') (PyStr ''success''),
                    run_of ''Client Tests'' (PyStr ''completed'') (PyStr ''success''),
                    run_of ''Build Check'' (PyStr ''completed'') (PyStr ''success'')]"

text \<open>One success, one failure, one check in progress, and no record of the fourth check.\<close>

definition ex_mixed :: "run list option" where
  "ex_mixed = Some [run_of ''Lint & Type Check'' (PyStr ''completed'') (PyStr ''success''),
                    run_of ''Server Tests'' (PyStr ''completed'') (PyStr ''failure''),
                    run_of ''Client Tests'' (PyStr ''in_progress'') PyNone]"

text \<open>As \<open>ex_green\<close>, but the server tests failed.\<close>

definition ex_failed :: "run list option" where
  "ex_failed = Some [run_of ''Lint & Type Check'' (PyStr ''completed'') (PyStr ''success''),
                     run_of ''Server Tests'' (PyStr ''completed'') (PyStr ''failure''),
                     run_of ''Client Tests'' (PyStr ''completed'') (PyStr ''success''),
                     run_of ''Build Check'' (PyStr ''completed'') (PyStr ''success'')]"

text \<open>A transport on which no request gets a response, and one that always reports success.\<close>

definition ex_down :: transport where
  "ex_down i = ConnectionFailed"

definition ex_up :: transport where
  "ex_up i = Response 200 ex_green"

section \<open>The dict of check-runs and the classification loop\<close>

lemma build_checks_all_named:
  "build_checks runs acc = Inr checks \<Longrightarrow> r \<in> set runs \<Longrightarrow> map_of r ''name'' \<noteq> None"
  by (induction runs arbitrary: acc) (auto split: option.splits)

lemma build_checks_defined:
  "\<forall>r\<in>set runs. map_of r ''name'' \<noteq> None \<Longrightarrow> \<exists>checks. build_checks runs acc = Inr checks"
  by (induction runs arbitrary: acc) (auto split: option.splits)

lemma build_checks_lookup:
  "build_checks runs acc = Inr checks \<Longrightarrow>
   checks k = (if filter (\<lambda>r. map_of r ''name'' = Some k) runs = [] then acc k
               else Some (last (filter (\<lambda>r. map_of r ''name'' = Some k) runs)))"
proof (induction runs arbitrary: acc)
  case Nil
  then show ?case by simp
next
  case (Cons r rs)
  from Cons.prems obtain n where n: "map_of r ''name'' = Some n"
    and rest: "build_checks rs (acc(n \<mapsto> r)) = Inr checks"
    by (auto split: option.splits)
  from Cons.IH [OF rest] n show ?case by auto
qed

lemma classify_name_acc:
  "classify_name name checks p m =
     (case classify_name name checks [] [] of
        Inl e \<Rightarrow> Inl e
      | Inr (p', m') \<Rightarrow> Inr (p @ p', m @ m'))"
  by (simp add: classify_name_def split: option.splits)

lemma classify_acc:
  "classify names checks p m =
     (case classify names checks [] [] of
        Inl e \<Rightarrow> Inl e
      | Inr (p', m') \<Rightarrow> Inr (p @ p', m @ m'))"
proof (induction names arbitrary: p m)
  case Nil
  then show ?case by simp
next
  case (Cons name names)
  show ?case
  proof (cases "classify_name name checks [] []")
    case (Inl e)
    then show ?thesis by (simp add: classify_name_acc [of name checks p m])
  next
    case (Inr pm)
    obtain p1 m1 where pm: "pm = (p1, m1)" by (cases pm)
    have a: "classify_name name checks p m = Inr (p @ p1, m @ m1)"
      using Inr pm by (simp add: classify_name_acc [of name checks p m])
    show ?thesis
      using Inr pm a Cons.IH [of "p @ p1" "m @ m1"] Cons.IH [of p1 m1]
      by (simp split: sum.splits)
  qed
qed

lemma classify_append:
  "classify (xs @ ys) checks p m =
     (case classify xs checks p m of
        Inl e \<Rightarrow> Inl e
      | Inr (p', m') \<Rightarrow> classify ys checks p' m')"
  by (induction xs arbitrary: p m) (auto split: sum.splits)

lemma checks_of_response:
  assumes "build_checks runs Map.empty = Inr checks"
  shows "checks (PyStr name) = (if named name runs = [] then None else Some (last (named name runs)))"
  using build_checks_lookup [OF assms, of "PyStr name"] by (simp add: named_def)

lemma named_last:
  assumes "named name runs \<noteq> []"
  shows "last (named name runs) \<in> set runs \<and> map_of (last (named name runs)) ''name'' = Some (PyStr name)"
proof -
  have "last (named name runs) \<in> set (named name runs)" using assms by simp
  then show ?thesis by (simp add: named_def)
qed

lemma named_last_nonempty: "named name runs \<noteq> [] \<Longrightarrow> last (named name runs) \<noteq> []"
  using named_last [of name runs] by auto

lemma classify_name_response:
  assumes "build_checks runs Map.empty = Inr checks"
  shows "classify_name name checks p m =
     (if named name runs = [] then Inr (p, m @ [name])
      else (case map_of (last (named name runs)) ''status'' of
              None \<Rightarrow> Inl (KeyError ''status'')
            | Some status \<Rightarrow>
                if status \<noteq> PyStr ''completed''
                then Inr (p @ [name @ '' ('' @ py_str status @ '')''], m)
                else (case map_of (last (named name runs)) ''conclusion'' of
                        None \<Rightarrow> Inl (KeyError ''conclusion'')
                      | Some conclusion \<Rightarrow>
                          if conclusion \<noteq> PyStr ''success''
                          then Inr (p @ [name @ '' ('' @ py_str conclusion @ '')''], m)
                          else Inr (p, m))))"
  using named_last_nonempty [of name runs]
  by (simp add: classify_name_def checks_of_response [OF assms])

lemma classify_split:
  assumes "classify (before @ name # after) checks [] [] = Inr (pending, missing)"
  shows "\<exists>p1 m1 p m p2 m2.
           classify before checks [] [] = Inr (p1, m1) \<and>
           classify_name name checks [] [] = Inr (p, m) \<and>
           classify after checks [] [] = Inr (p2, m2) \<and>
           pending = p1 @ p @ p2 \<and> missing = m1 @ m @ m2"
proof -
  from assms obtain p1 m1 where b: "classify before checks [] [] = Inr (p1, m1)"
    and r: "classify (name # after) checks p1 m1 = Inr (pending, missing)"
    by (auto simp: classify_append split: sum.splits)
  from r obtain p' m' where n: "classify_name name checks p1 m1 = Inr (p', m')"
    and a: "classify after checks p' m' = Inr (pending, missing)"
    by (auto split: sum.splits)
  from n obtain p m where n0: "classify_name name checks [] [] = Inr (p, m)"
    and pm: "p' = p1 @ p" "m' = m1 @ m"
    by (auto simp: classify_name_acc [of name checks p1 m1] split: sum.splits)
  from a obtain p2 m2 where a0: "classify after checks [] [] = Inr (p2, m2)"
    and fin: "pending = p' @ p2" "missing = m' @ m2"
    by (auto simp: classify_acc [of after checks p' m'] split: sum.splits)
  show ?thesis using b n0 a0 pm fin by simp
qed

section \<open>The polling loop, step by step\<close>

lemma wait_step_requests [simp]: "requests (wait_step n a p m st) = requests st"
  by (simp add: wait_step_def print_def sleep_def Let_def)

lemma wait_step_slept [simp]: "slept (wait_step n a p m st) = slept st + 10"
  by (simp add: wait_step_def print_def sleep_def Let_def)

lemma wait_step_stdout: "\<exists>lines. stdout (wait_step n a p m st) = stdout st @ lines"
  by (simp add: wait_step_def print_def sleep_def Let_def)

lemma still_waitingE:
  assumes "still_waiting required rep"
  obtains code data pending missing where
    "rep = Response code data" "\<not> (400 \<le> code \<and> code < 600)"
    "classify_response required data = Inr (pending, missing)" "pending \<noteq> [] \<or> missing \<noteq> []"
  using assms by (cases rep) (auto split: sum.splits)

lemma poll_wait:
  assumes "still_waiting required (tr (requests st))" and "attempt + 1 < max_retries"
  shows "poll required max_retries tr (Suc left) attempt st =
         poll required max_retries tr left (attempt + 1)
           (after_waits required max_retries tr attempt st 1)"
proof -
  from assms(1) obtain code data pending missing where
    r: "tr (requests st) = Response code data" and c: "\<not> (400 \<le> code \<and> code < 600)" and
    cl: "classify_response required data = Inr (pending, missing)" and
    ne: "pending \<noteq> [] \<or> missing \<noteq> []"
    by (rule still_waitingE)
  have lt: "int attempt < int max_retries - 1" using assms(2) by simp
  show ?thesis using r c cl ne lt by (auto simp: Let_def)
qed

lemma poll_last:
  assumes "tr (requests st) = Response code data" and "\<not> (400 \<le> code \<and> code < 600)"
    and "classify_response required data = Inr (pending, missing)"
    and "pending \<noteq> [] \<or> missing \<noteq> []" and "\<not> attempt + 1 < max_retries"
  shows "poll required max_retries tr (Suc left) attempt st =
         (SysExit 1, timeout_report pending missing (st\<lparr>requests := requests st + 1\<rparr>))"
proof -
  have "\<not> int attempt < int max_retries - 1" using assms(5) by simp
  then show ?thesis using assms(1-4) by (auto simp: Let_def)
qed

lemma poll_green:
  assumes "all_green required (tr (requests st))"
  shows "poll required max_retries tr (Suc left) attempt st =
         (Returned, print (check_mark @ '' All required checks passed!'')
                      (st\<lparr>requests := requests st + 1\<rparr>))"
  using assms by (cases "tr (requests st)") (auto simp: Let_def)

lemma poll_fails:
  assumes "request_fails (tr (requests st))"
  shows "poll required max_retries tr (Suc left) attempt st =
         (Uncaught (case tr (requests st) of ConnectionFailed \<Rightarrow> RequestException
                    | Response code data \<Rightarrow> HTTPError code),
          st\<lparr>requests := requests st + 1\<rparr>)"
  using assms by (cases "tr (requests st)") (auto simp: Let_def)

lemma poll_lookup_error:
  assumes "tr (requests st) = Response code data" and "\<not> (400 \<le> code \<and> code < 600)"
    and "classify_response required data = Inl e"
  shows "poll required max_retries tr (Suc left) attempt st =
         (Uncaught e, st\<lparr>requests := requests st + 1\<rparr>)"
  using assms by (auto simp: Let_def)

lemma after_waits_effects:
  assumes "\<forall>i<k. still_waiting required (tr (requests st + i))"
  shows "requests (after_waits required n tr attempt st k) = requests st + k \<and>
         slept (after_waits required n tr attempt st k) = slept st + 10 * k \<and>
         (\<exists>lines. stdout (after_waits required n tr attempt st k) = stdout st @ lines)"
  using assms
proof (induction k arbitrary: attempt st)
  case 0
  then show ?case by simp
next
  case (Suc k)
  from Suc.prems have "still_waiting required (tr (requests st))" by force
  then obtain code data pending missing where
    r: "tr (requests st) = Response code data" and
    cl: "classify_response required data = Inr (pending, missing)"
    by (rule still_waitingE)
  let ?st = "wait_step n attempt pending missing (st\<lparr>requests := requests st + 1\<rparr>)"
  have step: "after_waits required n tr attempt st (Suc k) = after_waits required n tr (attempt + 1) ?st k"
    using r cl by simp
  have "\<forall>i<k. still_waiting required (tr (requests ?st + i))"
    using Suc.prems by (auto dest: spec [of _ "Suc i" for i])
  from Suc.IH [OF this, of "attempt + 1"] wait_step_stdout [of n attempt pending missing "st\<lparr>requests := requests st + 1\<rparr>"]
  show ?case unfolding step by auto
qed

lemma poll_waits:
  assumes "\<forall>i<k. still_waiting required (tr (requests st + i))" and "attempt + k < max_retries"
  shows "poll required max_retries tr (k + left) attempt st =
         poll required max_retries tr left (attempt + k)
           (after_waits required max_retries tr attempt st k)"
  using assms
proof (induction k arbitrary: attempt st)
  case 0
  then show ?case by simp
next
  case (Suc k)
  from Suc.prems have w: "still_waiting required (tr (requests st))" by force
  then obtain code data pending missing where
    r: "tr (requests st) = Response code data" and
    cl: "classify_response required data = Inr (pending, missing)"
    by (rule still_waitingE)
  let ?st = "wait_step max_retries attempt pending missing (st\<lparr>requests := requests st + 1\<rparr>)"
  have one: "after_waits required max_retries tr attempt st 1 = ?st"
    using r cl by simp
  have step: "after_waits required max_retries tr attempt st (Suc k) =
              after_waits required max_retries tr (attempt + 1) ?st k"
    using r cl by simp
  have rest: "\<forall>i<k. still_waiting required (tr (requests ?st + i))"
    using Suc.prems(1) by (auto dest: spec [of _ "Suc i" for i])
  have "poll required max_retries tr (Suc k + left) attempt st =
        poll required max_retries tr (k + left) (attempt + 1) ?st"
    using poll_wait [where required = required and tr = tr and st = st and attempt = attempt
                       and max_retries = max_retries and left = "k + left"]
          w Suc.prems(2) one by simp
  also have "\<dots> = poll required max_retries tr left (attempt + 1 + k)
                    (after_waits required max_retries tr (attempt + 1) ?st k)"
    using Suc.IH [OF rest, of "attempt + 1"] Suc.prems(2) by simp
  finally show ?case unfolding step by simp
qed

lemma run_unconfigured:
  assumes "\<not> configured env"
  shows "wait_for_ci required n env tr =
         (SysExit 1,
          \<lparr>stdout = [''Missing required env vars: GITHUB_TOKEN, GITHUB_REPOSITORY_OWNER, GITHUB_REPOSITORY, GITHUB_SHA''],
           requests = 0, slept = 0\<rparr>)"
  using assms by (simp add: wait_for_ci_def configured_def repo_of_def Let_def print_def)

lemma run_configured:
  assumes "configured env"
  shows "wait_for_ci required n env tr = poll required n tr n 0 (started required env)"
  using assms by (simp add: wait_for_ci_def configured_def repo_of_def Let_def print_def started_def)

text \<open>The process at the start of attempt k when the first k replies all keep the loop waiting.\<close>

lemma run_reaches:
  assumes "configured env" and "\<forall>i<k. still_waiting required (tr i)" and "k < n"
  shows "wait_for_ci required n env tr =
         poll required n tr (Suc (n - Suc k)) k (after_waits required n tr 0 (started required env) k)"
    and "requests (after_waits required n tr 0 (started required env) k) = k"
    and "slept (after_waits required n tr 0 (started required env) k) = 10 * k"
proof -
  have w: "\<forall>i<k. still_waiting required (tr (requests (started required env) + i))"
    using assms(2) by (simp add: started_def)
  have "n = k + Suc (n - Suc k)" using assms(3) by simp
  then have "poll required n tr n 0 (started required env) =
             poll required n tr (k + Suc (n - Suc k)) 0 (started required env)" by simp
  also have "\<dots> = poll required n tr (Suc (n - Suc k)) (0 + k)
                     (after_waits required n tr 0 (started required env) k)"
    using assms(3) by (intro poll_waits [OF w]) simp
  finally show "wait_for_ci required n env tr =
         poll required n tr (Suc (n - Suc k)) k (after_waits required n tr 0 (started required env) k)"
    using run_configured [OF assms(1)] by simp
  show "requests (after_waits required n tr 0 (started required env) k) = k"
    and "slept (after_waits required n tr 0 (started required env) k) = 10 * k"
    using after_waits_effects [OF w, of n 0] by (simp_all add: started_def)
qed

section \<open>Classification of one response\<close>

text \<open>
  C1. Let the classification of a response for the required names
  \<open>before @ name # after\<close> return the lists \<open>pending\<close> and \<open>missing\<close>. Then the names before
  and after \<open>name\<close> are classified on their own, and \<open>name\<close> adds exactly this in between:
  when no check-run of the response carries the name, the name itself to \<open>missing\<close> and
  nothing to \<open>pending\<close>; when its record (the last check-run carrying the name) has a status
  other than completed, the name annotated with that status to \<open>pending\<close>; when the record
  is completed with a conclusion other than success, the name annotated with that
  conclusion to \<open>pending\<close>; when it is completed with success, nothing to either list. The
  four cases exclude one another and cover every record.
\<close>

theorem classification_of_required_name:
  assumes "classify_response (before @ name # after) data = Inr (pending, missing)"
  shows "\<exists>p1 m1 p2 m2.
           classify_response before data = Inr (p1, m1) \<and>
           classify_response after data = Inr (p2, m2) \<and>
           (if named name (check_runs data) = []
            then pending = p1 @ p2 \<and> missing = m1 @ name # m2
            else \<exists>status. map_of (last (named name (check_runs data))) ''status'' = Some status \<and>
                 (if status \<noteq> PyStr ''completed''
                  then pending = p1 @ (name @ '' ('' @ py_str status @ '')'') # p2 \<and>
                       missing = m1 @ m2
                  else \<exists>conclusion.
                         map_of (last (named name (check_runs data))) ''conclusion'' = Some conclusion \<and>
                         (if conclusion \<noteq> PyStr ''success''
                          then pending = p1 @ (name @ '' ('' @ py_str conclusion @ '')'') # p2 \<and>
                               missing = m1 @ m2
                          else pending = p1 @ p2 \<and> missing = m1 @ m2)))"
proof -
  from assms obtain checks where bc: "build_checks (check_runs data) Map.empty = Inr checks"
    and cl: "classify (before @ name # after) checks [] [] = Inr (pending, missing)"
    by (auto simp: classify_response_def split: sum.splits)
  from classify_split [OF cl] obtain p1 m1 p m p2 m2 where
    b: "classify before checks [] [] = Inr (p1, m1)" and
    n: "classify_name name checks [] [] = Inr (p, m)" and
    a: "classify after checks [] [] = Inr (p2, m2)" and
    pm: "pending = p1 @ p @ p2" "missing = m1 @ m @ m2"
    by blast
  have b': "classify_response before data = Inr (p1, m1)"
    and a': "classify_response after data = Inr (p2, m2)"
    using bc b a by (simp_all add: classify_response_def)
  have frame: "\<And>Q. Q p1 m1 p2 m2 \<Longrightarrow>
      \<exists>p1 m1 p2 m2. classify_response before data = Inr (p1, m1) \<and>
           classify_response after data = Inr (p2, m2) \<and> Q p1 m1 p2 m2"
    using b' a' by blast
  let ?r = "last (named name (check_runs data))"
  show ?thesis
  proof (cases "named name (check_runs data) = []")
    case True
    then have "p = [] \<and> m = [name]" using n by (simp add: classify_name_response [OF bc])
    then show ?thesis using True pm by (intro frame) simp
  next
    case False
    then obtain status where st: "map_of ?r ''status'' = Some status"
      using n by (cases "map_of ?r ''status''") (simp_all add: classify_name_response [OF bc])
    show ?thesis
    proof (cases "status = PyStr ''completed''")
      case ne: False
      then have "p = [name @ '' ('' @ py_str status @ '')''] \<and> m = []"
        using n False st by (simp add: classify_name_response [OF bc])
      then show ?thesis using False st ne pm by (intro frame) simp
    next
      case eq: True
      then obtain conclusion where co: "map_of ?r ''conclusion'' = Some conclusion"
        using n False st by (cases "map_of ?r ''conclusion''")
                 (simp_all add: classify_name_response [OF bc])
      show ?thesis
      proof (cases "conclusion = PyStr ''success''")
        case True
        then have "p = [] \<and> m = []"
          using n False st eq co by (simp add: classify_name_response [OF bc])
        then show ?thesis using False st eq co True pm by (intro frame) simp
      next
        case nc: False
        then have "p = [name @ '' ('' @ py_str conclusion @ '')''] \<and> m = []"
          using n False st eq co by (simp add: classify_name_response [OF bc])
        then show ?thesis using False st eq co nc pm by (intro frame) simp
      qed
    qed
  qed
qed

theorem classification_of_required_name_witness:
  "classify_response ([''Lint & Type Check''] @ ''Server Tests'' # [''Client Tests'', ''Build Check''])
     ex_mixed
   = Inr ([''Server Tests (failure)'', ''Client Tests (in_progress)''], [''Build Check'']) \<and>
   (\<exists>p1 m1 p2 m2.
      classify_response [''Lint & Type Check''] ex_mixed = Inr (p1, m1) \<and>
      classify_response [''Client Tests'', ''Build Check''] ex_mixed = Inr (p2, m2) \<and>
      [''Server Tests (failure)'', ''Client Tests (in_progress)''] = p1 @ ''Server Tests (failure)'' # p2 \<and>
      [''Build Check''] = m1 @ m2)"
proof -
  have h: "classify_response ([''Lint & Type Check''] @ ''Server Tests'' # [''Client Tests'', ''Build Check''])
             ex_mixed
           = Inr ([''Server Tests (failure)'', ''Client Tests (in_progress)''], [''Build Check''])"
    by (simp add: classify_response_def classify_name_def ex_mixed_def run_of_def)
  from classification_of_required_name [OF h] h show ?thesis
    by (simp add: named_def ex_mixed_def run_of_def)
qed

section \<open>Whole runs up to the attempt that ends them\<close>

lemma unconfigured_cases:
  assumes "\<not> truthy (env ''GITHUB_TOKEN'') \<or> \<not> truthy (env ''GITHUB_REPOSITORY_OWNER'') \<or>
           (\<not> truthy (env ''GITHUB_REPOSITORY_NAME'') \<and> \<not> truthy (env ''GITHUB_REPOSITORY'')) \<or>
           \<not> truthy (env ''GITHUB_SHA'')"
  shows "\<not> configured env"
proof -
  have "repo_of env = []"
    if "\<not> truthy (env ''GITHUB_REPOSITORY_NAME'')" and "\<not> truthy (env ''GITHUB_REPOSITORY'')"
    using that
    by (cases "env ''GITHUB_REPOSITORY_NAME''"; cases "env ''GITHUB_REPOSITORY''")
       (simp_all add: repo_of_def)
  then show ?thesis using assms by (auto simp: configured_def)
qed

lemma run_timeout:
  assumes "configured env" and "0 < n" and "\<forall>i<n. still_waiting required (tr i)"
  shows "\<exists>code data pending missing.
           tr (n - 1) = Response code data \<and>
           classify_response required data = Inr (pending, missing) \<and>
           (pending \<noteq> [] \<or> missing \<noteq> []) \<and>
           wait_for_ci required n env tr =
             (SysExit 1, timeout_report pending missing
                ((after_waits required n tr 0 (started required env) (n - 1))\<lparr>requests := n\<rparr>))"
proof -
  let ?st = "after_waits required n tr 0 (started required env) (n - 1)"
  have k: "n - 1 < n" and pre: "\<forall>i<n - 1. still_waiting required (tr i)"
    using assms(2,3) by simp_all
  note reach = run_reaches [OF assms(1) pre k]
  have "still_waiting required (tr (n - 1))" using assms(2,3) by simp
  then obtain code data pending missing where
    r: "tr (n - 1) = Response code data" and c: "\<not> (400 \<le> code \<and> code < 600)" and
    cl: "classify_response required data = Inr (pending, missing)" and
    ne: "pending \<noteq> [] \<or> missing \<noteq> []"
    by (rule still_waitingE)
  have r': "tr (requests ?st) = Response code data" using r reach(2) by simp
  have last: "\<not> (n - 1) + 1 < n" by simp
  have "wait_for_ci required n env tr =
        (SysExit 1, timeout_report pending missing (?st\<lparr>requests := requests ?st + 1\<rparr>))"
    unfolding reach(1) by (rule poll_last [where tr = tr and st = ?st, OF r' c cl ne last])
  moreover have "requests ?st + 1 = n" using reach(2) assms(2) by simp
  ultimately show ?thesis using r cl ne by simp
qed

lemma run_fails:
  assumes "configured env" and "k < n" and "\<forall>i<k. still_waiting required (tr i)"
    and "request_fails (tr k)"
  shows "wait_for_ci required n env tr =
           (Uncaught (case tr k of ConnectionFailed \<Rightarrow> RequestException
                      | Response code data \<Rightarrow> HTTPError code),
            (after_waits required n tr 0 (started required env) k)\<lparr>requests := k + 1\<rparr>)"
proof -
  let ?st = "after_waits required n tr 0 (started required env) k"
  note reach = run_reaches [OF assms(1,3,2)]
  have f: "request_fails (tr (requests ?st))" using assms(4) reach(2) by simp
  show ?thesis unfolding reach(1) using poll_fails [where tr = tr and st = ?st, OF f] reach(2) by simp
qed

lemma run_green:
  assumes "configured env" and "k < n" and "\<forall>i<k. still_waiting required (tr i)"
    and "all_green required (tr k)"
  shows "wait_for_ci required n env tr =
           (Returned, print (check_mark @ '' All required checks passed!'')
              ((after_waits required n tr 0 (started required env) k)\<lparr>requests := k + 1\<rparr>))"
proof -
  let ?st = "after_waits required n tr 0 (started required env) k"
  note reach = run_reaches [OF assms(1,3,2)]
  have f: "all_green required (tr (requests ?st))" using assms(4) reach(2) by simp
  show ?thesis unfolding reach(1) using poll_green [where tr = tr and st = ?st, OF f] reach(2) by simp
qed

lemma run_lookup_error:
  assumes "configured env" and "k < n" and "\<forall>i<k. still_waiting required (tr i)"
    and "tr k = Response code data" and "\<not> (400 \<le> code \<and> code < 600)"
    and "classify_response required data = Inl e"
  shows "wait_for_ci required n env tr =
           (Uncaught e, (after_waits required n tr 0 (started required env) k)\<lparr>requests := k + 1\<rparr>)"
proof -
  let ?st = "after_waits required n tr 0 (started required env) k"
  note reach = run_reaches [OF assms(1,3,2)]
  have f: "tr (requests ?st) = Response code data" using assms(4) reach(2) by simp
  show ?thesis unfolding reach(1) using poll_lookup_error [where tr = tr and st = ?st, OF f assms(5,6)] reach(2) by simp
qed

lemma timeout_report_stdout:
  "stdout (timeout_report pending missing st) =
     stdout st @ [cross_mark @ '' Timeout waiting for checks'',
                  ''  Still missing or failed: '' @ py_join '', '' (pending @ missing)]"
  by (simp add: timeout_report_def print_def)

lemma timeout_report_requests [simp]: "requests (timeout_report pending missing st) = requests st"
  by (simp add: timeout_report_def print_def)

lemma timeout_report_slept [simp]: "slept (timeout_report pending missing st) = slept st"
  by (simp add: timeout_report_def print_def)

section \<open>Outcomes of a whole run\<close>

text \<open>
  C2. In a configured run with at least one attempt, when every one of the \<open>max_retries\<close>
  replies is a response that leaves a required check pending or missing, the script
  calls \<^verbatim>\<open>sys.exit(1)\<close> after exactly \<open>max_retries\<close> requests, and the last two lines of its
  output are the timeout line and the line that lists the pending entries followed by
  the missing names of the last response. The outcome is never a return. The script has
  \<open>max_retries = 30\<close>; a failed check appears as its name followed by \<^verbatim>\<open> (failure)\<close>.
\<close>

theorem timeout_after_max_attempts:
  assumes "configured env" and "0 < max_retries"
    and "\<forall>i<max_retries. still_waiting required (tr i)"
  shows "\<exists>code data pending missing earlier.
           tr (max_retries - 1) = Response code data \<and>
           classify_response required data = Inr (pending, missing) \<and>
           (pending \<noteq> [] \<or> missing \<noteq> []) \<and>
           fst (wait_for_ci required max_retries env tr) = SysExit 1 \<and>
           exit_status (fst (wait_for_ci required max_retries env tr)) = 1 \<and>
           requests (snd (wait_for_ci required max_retries env tr)) = max_retries \<and>
           stdout (snd (wait_for_ci required max_retries env tr)) =
             earlier @ [cross_mark @ '' Timeout waiting for checks'',
                        ''  Still missing or failed: '' @ py_join '', '' (pending @ missing)]"
proof -
  from run_timeout [OF assms] obtain code data pending missing where
    r: "tr (max_retries - 1) = Response code data" and
    cl: "classify_response required data = Inr (pending, missing)" and
    ne: "pending \<noteq> [] \<or> missing \<noteq> []" and
    run: "wait_for_ci required max_retries env tr =
            (SysExit 1, timeout_report pending missing
               ((after_waits required max_retries tr 0 (started required env) (max_retries - 1))
                  \<lparr>requests := max_retries\<rparr>))"
    by blast
  show ?thesis
    apply (rule exI [of _ code], rule exI [of _ data])
    apply (rule exI [of _ pending], rule exI [of _ missing])
    apply (rule exI [of _ "stdout (after_waits required max_retries tr 0 (started required env) (max_retries - 1))"])
    using r cl ne by (simp add: run timeout_report_stdout)
qed

theorem timeout_after_max_attempts_witness:
  "fst (main ex_env (\<lambda>i. Response 200 ex_failed)) = SysExit 1 \<and>
   exit_status (fst (main ex_env (\<lambda>i. Response 200 ex_failed))) = 1 \<and>
   requests (snd (main ex_env (\<lambda>i. Response 200 ex_failed))) = 30 \<and>
   last (stdout (snd (main ex_env (\<lambda>i. Response 200 ex_failed)))) =
     ''  Still missing or failed: Server Tests (failure)''"
proof -
  have c: "configured ex_env"
    by (simp add: configured_def repo_of_def ex_env_def)
  have cl: "classify_response REQUIRED_CHECKS ex_failed = Inr ([''Server Tests (failure)''], [])"
    by (simp add: classify_response_def classify_name_def ex_failed_def run_of_def REQUIRED_CHECKS_def)
  have w: "\<forall>i<30. still_waiting REQUIRED_CHECKS ((\<lambda>i. Response 200 ex_failed) i)"
    by (simp add: cl)
  have n: "(0::nat) < 30" by simp
  from timeout_after_max_attempts [OF c n w] show ?thesis
    by (auto simp: main_def cl)
qed

text \<open>
  C3. When the token, the owner, the commit identifier, or both the repository name and
  the combined identifier are unset or empty, the script prints the line about the
  missing variables and calls \<^verbatim>\<open>sys.exit(1)\<close>; no request has been issued, whatever the
  transport would have replied.
\<close>

theorem missing_configuration:
  assumes "\<not> truthy (env ''GITHUB_TOKEN'') \<or> \<not> truthy (env ''GITHUB_REPOSITORY_OWNER'') \<or>
           (\<not> truthy (env ''GITHUB_REPOSITORY_NAME'') \<and> \<not> truthy (env ''GITHUB_REPOSITORY'')) \<or>
           \<not> truthy (env ''GITHUB_SHA'')"
  shows "fst (wait_for_ci required max_retries env tr) = SysExit 1 \<and>
         exit_status (fst (wait_for_ci required max_retries env tr)) = 1 \<and>
         requests (snd (wait_for_ci required max_retries env tr)) = 0 \<and>
         stdout (snd (wait_for_ci required max_retries env tr)) =
           [''Missing required env vars: GITHUB_TOKEN, GITHUB_REPOSITORY_OWNER, GITHUB_REPOSITORY, GITHUB_SHA'']"
  using run_unconfigured [OF unconfigured_cases [OF assms]] by simp

theorem missing_configuration_witness:
  "\<not> truthy ((ex_env(''GITHUB_TOKEN'' := None)) ''GITHUB_TOKEN'') \<and>
   fst (main (ex_env(''GITHUB_TOKEN'' := None)) (\<lambda>i. Response 200 ex_green)) = SysExit 1 \<and>
   exit_status (fst (main (ex_env(''GITHUB_TOKEN'' := None)) (\<lambda>i. Response 200 ex_green))) = 1 \<and>
   requests (snd (main (ex_env(''GITHUB_TOKEN'' := None)) (\<lambda>i. Response 200 ex_green))) = 0"
proof -
  have h: "\<not> truthy ((ex_env(''GITHUB_TOKEN'' := None)) ''GITHUB_TOKEN'')" by simp
  from missing_configuration [of "ex_env(''GITHUB_TOKEN'' := None)" REQUIRED_CHECKS 30
         "\<lambda>i. Response 200 ex_green"] h
  show ?thesis unfolding main_def by blast
qed

text \<open>
  C4. When the first \<open>k\<close> replies kept the loop waiting and request \<open>k\<close> fails (the call
  raises, or the status code is one that \<^verbatim>\<open>raise_for_status\<close> rejects), the exception
  leaves \<^verbatim>\<open>main\<close>: the run ends with exit status 1 after \<open>k + 1\<close> requests, whatever the
  later replies would be, with nothing printed and no sleep for the failed attempt, so
  that no classification of it is ever shown.
\<close>

theorem transport_failure_aborts:
  assumes "configured env" and "k < max_retries"
    and "\<forall>i<k. still_waiting required (tr i)" and "request_fails (tr k)"
  shows "fst (wait_for_ci required max_retries env tr) =
           Uncaught (case tr k of ConnectionFailed \<Rightarrow> RequestException
                     | Response code data \<Rightarrow> HTTPError code) \<and>
         exit_status (fst (wait_for_ci required max_retries env tr)) = 1 \<and>
         requests (snd (wait_for_ci required max_retries env tr)) = k + 1 \<and>
         slept (snd (wait_for_ci required max_retries env tr)) = 10 * k \<and>
         stdout (snd (wait_for_ci required max_retries env tr)) =
           stdout (after_waits required max_retries tr 0 (started required env) k)"
  using run_fails [OF assms] run_reaches(3) [OF assms(1,3,2)] by simp

theorem transport_failure_aborts_witness:
  "fst (main ex_env (\<lambda>i. if i < 2 then Response 200 ex_mixed else Response 503 None)) =
     Uncaught (HTTPError 503) \<and>
   exit_status (fst (main ex_env (\<lambda>i. if i < 2 then Response 200 ex_mixed else Response 503 None))) = 1 \<and>
   requests (snd (main ex_env (\<lambda>i. if i < 2 then Response 200 ex_mixed else Response 503 None))) = 3 \<and>
   slept (snd (main ex_env (\<lambda>i. if i < 2 then Response 200 ex_mixed else Response 503 None))) = 20"
proof -
  let ?tr = "\<lambda>i::nat. if i < 2 then Response 200 ex_mixed else Response 503 None"
  have c: "configured ex_env"
    by (simp add: configured_def repo_of_def ex_env_def)
  have cl: "classify_response REQUIRED_CHECKS ex_mixed =
              Inr ([''Server Tests (failure)'', ''Client Tests (in_progress)''], [''Build Check''])"
    by (simp add: classify_response_def classify_name_def ex_mixed_def run_of_def REQUIRED_CHECKS_def)
  have w: "\<forall>i<2. still_waiting REQUIRED_CHECKS (?tr i)"
    by (simp add: cl)
  have f: "request_fails (?tr 2)" by simp
  have k: "(2::nat) < 30" by simp
  from transport_failure_aborts [OF c k w f] show ?thesis
    by (simp add: main_def)
qed

section \<open>Verdicts and the two lists\<close>

lemma classify_name_verdict:
  assumes bc: "build_checks runs Map.empty = Inr checks"
    and n: "classify_name name checks p m = Inr (p', m')"
  shows "(verdict runs name = Missing \<and> p' = p \<and> m' = m @ [name]) \<or>
         (verdict runs name = Pending \<and> (\<exists>a. p' = p @ [name @ '' ('' @ a @ '')'']) \<and> m' = m) \<or>
         (verdict runs name = Satisfied \<and> p' = p \<and> m' = m)"
proof (cases "named name runs = []")
  case True
  then show ?thesis using n by (simp add: classify_name_response [OF bc] verdict_def)
next
  case False
  let ?r = "last (named name runs)"
  obtain status where st: "map_of ?r ''status'' = Some status"
    using n False by (cases "map_of ?r ''status''") (simp_all add: classify_name_response [OF bc])
  show ?thesis
  proof (cases "status = PyStr ''completed''")
    case ne: False
    have v: "verdict runs name = Pending" using False st ne by (simp add: verdict_def)
    have "p' = p @ [name @ '' ('' @ py_str status @ '')''] \<and> m' = m"
      using n False st ne by (simp add: classify_name_response [OF bc])
    then show ?thesis using v by blast
  next
    case eq: True
    then obtain conclusion where co: "map_of ?r ''conclusion'' = Some conclusion"
      using n False st by (cases "map_of ?r ''conclusion''")
                 (simp_all add: classify_name_response [OF bc])
    show ?thesis
    proof (cases "conclusion = PyStr ''success''")
      case True
      have v: "verdict runs name = Satisfied" using False st eq co True by (simp add: verdict_def)
      have "p' = p \<and> m' = m"
        using n False st eq co True by (simp add: classify_name_response [OF bc])
      then show ?thesis using v by blast
    next
      case nc: False
      have v: "verdict runs name = Pending" using False st eq co nc by (simp add: verdict_def)
      have "p' = p @ [name @ '' ('' @ py_str conclusion @ '')''] \<and> m' = m"
        using n False st eq co nc by (simp add: classify_name_response [OF bc])
      then show ?thesis using v by blast
    qed
  qed
qed

lemma classify_name_satisfied:
  assumes bc: "build_checks runs Map.empty = Inr checks" and "verdict runs name = Satisfied"
  shows "classify_name name checks p m = Inr (p, m)"
proof -
  have ne: "named name runs \<noteq> []" using assms(2) by (auto simp: verdict_def split: if_splits)
  then have "map_of (last (named name runs)) ''status'' = Some (PyStr ''completed'') \<and>
             map_of (last (named name runs)) ''conclusion'' = Some (PyStr ''success'')"
    using assms(2) by (auto simp: verdict_def split: if_splits)
  then show ?thesis using ne by (simp add: classify_name_response [OF bc])
qed

lemma classify_all_satisfied:
  assumes bc: "build_checks runs Map.empty = Inr checks"
    and "\<forall>name\<in>set required. verdict runs name = Satisfied"
  shows "classify required checks p m = Inr (p, m)"
  using assms(2) by (induction required) (simp_all add: classify_name_satisfied [OF bc])

lemma classify_closed_form:
  assumes bc: "build_checks runs Map.empty = Inr checks"
    and "classify required checks p m = Inr (pending, missing)"
  shows "missing = m @ filter (\<lambda>n. verdict runs n = Missing) required \<and>
         (\<exists>es. pending = p @ es \<and>
               list_all2 (\<lambda>e n. \<exists>a. e = n @ '' ('' @ a @ '')'') es
                 (filter (\<lambda>n. verdict runs n = Pending) required))"
  using assms(2)
proof (induction required arbitrary: p m)
  case Nil
  then show ?case by simp
next
  case (Cons name names)
  from Cons.prems obtain p' m' where n: "classify_name name checks p m = Inr (p', m')"
    and rest: "classify names checks p' m' = Inr (pending, missing)"
    by (auto split: sum.splits)
  note ih = Cons.IH [OF rest]
  from classify_name_verdict [OF bc n] consider
    (mis) "verdict runs name = Missing" "p' = p" "m' = m @ [name]" |
    (pen) a where "verdict runs name = Pending" "p' = p @ [name @ '' ('' @ a @ '')'']" "m' = m" |
    (sat) "verdict runs name = Satisfied" "p' = p" "m' = m"
    by blast
  then show ?case
  proof cases
    case mis
    then show ?thesis using ih by simp
  next
    case pen
    from ih obtain es where es: "pending = p' @ es"
      "list_all2 (\<lambda>e n. \<exists>a. e = n @ '' ('' @ a @ '')'') es (filter (\<lambda>n. verdict runs n = Pending) names)"
      by blast
    have "pending = p @ (name @ '' ('' @ a @ '')'') # es" using es(1) pen(2) by simp
    moreover have "list_all2 (\<lambda>e n. \<exists>a. e = n @ '' ('' @ a @ '')'') ((name @ '' ('' @ a @ '')'') # es)
                     (filter (\<lambda>n. verdict runs n = Pending) (name # names))"
      using es(2) pen(1) by auto
    moreover have "missing = m @ filter (\<lambda>n. verdict runs n = Missing) (name # names)"
      using ih pen(1,3) by simp
    ultimately show ?thesis by blast
  next
    case sat
    then show ?thesis using ih by simp
  qed
qed

text \<open>
  C6. The two lists that the classification of a response returns are given by the
  required names and that response alone: \<open>missing\<close> is the list of the required names
  whose verdict is missing, and \<open>pending\<close> holds, in order, one annotated entry for each
  required name whose verdict is pending. With the satisfied names (those that got no
  entry), the three sets cover the required names and are pairwise disjoint. The loop
  calls the classification afresh on every response, from two empty lists.
\<close>

theorem poll_result_partition:
  assumes "classify_response required data = Inr (pending, missing)"
  shows "missing = filter (\<lambda>n. verdict (check_runs data) n = Missing) required \<and>
         list_all2 (\<lambda>entry n. \<exists>a. entry = n @ '' ('' @ a @ '')'') pending
           (filter (\<lambda>n. verdict (check_runs data) n = Pending) required) \<and>
         {n \<in> set required. verdict (check_runs data) n = Satisfied}
           \<union> {n \<in> set required. verdict (check_runs data) n = Pending}
           \<union> set missing = set required \<and>
         {n \<in> set required. verdict (check_runs data) n = Satisfied}
           \<inter> {n \<in> set required. verdict (check_runs data) n = Pending} = {} \<and>
         {n \<in> set required. verdict (check_runs data) n = Satisfied} \<inter> set missing = {} \<and>
         {n \<in> set required. verdict (check_runs data) n = Pending} \<inter> set missing = {}"
proof -
  from assms obtain checks where bc: "build_checks (check_runs data) Map.empty = Inr checks"
    and cl: "classify required checks [] [] = Inr (pending, missing)"
    by (auto simp: classify_response_def split: sum.splits)
  from classify_closed_form [OF bc cl]
  have m: "missing = filter (\<lambda>n. verdict (check_runs data) n = Missing) required"
    and p: "list_all2 (\<lambda>entry n. \<exists>a. entry = n @ '' ('' @ a @ '')'') pending
              (filter (\<lambda>n. verdict (check_runs data) n = Pending) required)"
    by simp_all
  have cover: "{n \<in> set required. verdict (check_runs data) n = Satisfied}
           \<union> {n \<in> set required. verdict (check_runs data) n = Pending}
           \<union> set missing = set required"
  proof
    show "{n \<in> set required. verdict (check_runs data) n = Satisfied}
           \<union> {n \<in> set required. verdict (check_runs data) n = Pending}
           \<union> set missing \<subseteq> set required" unfolding m by auto
    show "set required \<subseteq> {n \<in> set required. verdict (check_runs data) n = Satisfied}
           \<union> {n \<in> set required. verdict (check_runs data) n = Pending}
           \<union> set missing"
    proof
      fix n assume "n \<in> set required"
      then show "n \<in> {n \<in> set required. verdict (check_runs data) n = Satisfied}
           \<union> {n \<in> set required. verdict (check_runs data) n = Pending}
           \<union> set missing"
        unfolding m by (cases "verdict (check_runs data) n") simp_all
    qed
  qed
  have d1: "{n \<in> set required. verdict (check_runs data) n = Satisfied}
           \<inter> {n \<in> set required. verdict (check_runs data) n = Pending} = {}" by auto
  have d2: "{n \<in> set required. verdict (check_runs data) n = Satisfied} \<inter> set missing = {}"
    unfolding m by auto
  have d3: "{n \<in> set required. verdict (check_runs data) n = Pending} \<inter> set missing = {}"
    unfolding m by auto
  show ?thesis using m p cover d1 d2 d3 by blast
qed

theorem poll_result_partition_witness:
  "classify_response REQUIRED_CHECKS ex_mixed
     = Inr ([''Server Tests (failure)'', ''Client Tests (in_progress)''], [''Build Check'']) \<and>
   [''Build Check''] = filter (\<lambda>n. verdict (check_runs ex_mixed) n = Missing) REQUIRED_CHECKS \<and>
   {n \<in> set REQUIRED_CHECKS. verdict (check_runs ex_mixed) n = Satisfied}
     \<union> {n \<in> set REQUIRED_CHECKS. verdict (check_runs ex_mixed) n = Pending}
     \<union> set [''Build Check''] = set REQUIRED_CHECKS \<and>
   {n \<in> set REQUIRED_CHECKS. verdict (check_runs ex_mixed) n = Pending} \<inter> set [''Build Check''] = {}"
proof -
  have h: "classify_response REQUIRED_CHECKS ex_mixed
             = Inr ([''Server Tests (failure)'', ''Client Tests (in_progress)''], [''Build Check''])"
    by (simp add: classify_response_def classify_name_def ex_mixed_def run_of_def REQUIRED_CHECKS_def)
  from poll_result_partition [OF h] h show ?thesis by blast
qed

lemma classify_response_satisfied:
  assumes "\<forall>r\<in>set (check_runs data). map_of r ''name'' \<noteq> None"
    and "\<forall>name\<in>set required. verdict (check_runs data) name = Satisfied"
  shows "classify_response required data = Inr ([], [])"
proof -
  from build_checks_defined [OF assms(1)] obtain checks where
    bc: "build_checks (check_runs data) Map.empty = Inr checks" by blast
  show ?thesis using classify_all_satisfied [OF bc assms(2)] bc by (simp add: classify_response_def)
qed

text \<open>
  C5. For any list of required names: when the first response is accepted, each of its
  check-runs has a name, and the record of every required name is completed with
  success, both lists of the classification are empty and the configured run returns
  after one request, with no sleep, having printed the two opening lines and the success
  line.
\<close>

theorem all_green_first_attempt:
  assumes "configured env" and "0 < max_retries"
    and "tr 0 = Response code data" and "\<not> (400 \<le> code \<and> code < 600)"
    and "\<forall>r\<in>set (check_runs data). map_of r ''name'' \<noteq> None"
    and "\<forall>name\<in>set required. verdict (check_runs data) name = Satisfied"
  shows "classify_response required data = Inr ([], []) \<and>
         wait_for_ci required max_retries env tr =
           (Returned,
            \<lparr>stdout = stdout (started required env) @ [check_mark @ '' All required checks passed!''],
             requests = 1, slept = 0\<rparr>)"
proof -
  have cl: "classify_response required data = Inr ([], [])"
    by (rule classify_response_satisfied [OF assms(5,6)])
  have g: "all_green required (tr 0)" using assms(3,4) cl by simp
  have "\<forall>i<(0::nat). still_waiting required (tr i)" by simp
  from run_green [OF assms(1,2) this g] cl show ?thesis
    by (simp add: print_def started_def)
qed

theorem all_green_first_attempt_witness:
  "classify_response REQUIRED_CHECKS ex_green = Inr ([], []) \<and>
   fst (main ex_env (\<lambda>i. Response 200 ex_green)) = Returned \<and>
   requests (snd (main ex_env (\<lambda>i. Response 200 ex_green))) = 1 \<and>
   slept (snd (main ex_env (\<lambda>i. Response 200 ex_green))) = 0"
proof -
  have c: "configured ex_env"
    by (simp add: configured_def repo_of_def ex_env_def)
  have n: "(0::nat) < 30" by simp
  have r: "(\<lambda>i::nat. Response 200 ex_green) 0 = Response 200 ex_green" by simp
  have ok: "\<not> (400 \<le> (200::int) \<and> (200::int) < 600)" by simp
  have nm: "\<forall>r\<in>set (check_runs ex_green). map_of r ''name'' \<noteq> None"
    by (simp add: ex_green_def run_of_def)
  have v: "\<forall>name\<in>set REQUIRED_CHECKS. verdict (check_runs ex_green) name = Satisfied"
    by (simp add: REQUIRED_CHECKS_def ex_green_def run_of_def verdict_def named_def)
  from all_green_first_attempt [OF c n r ok nm v] show ?thesis
    by (simp add: main_def)
qed

section \<open>The exit status\<close>

lemma classify_response_green_iff:
  "classify_response required data = Inr ([], []) \<longleftrightarrow>
     (\<forall>r\<in>set (check_runs data). map_of r ''name'' \<noteq> None) \<and>
     (\<forall>name\<in>set required. verdict (check_runs data) name = Satisfied)"
proof
  assume g: "classify_response required data = Inr ([], [])"
  then obtain checks where bc: "build_checks (check_runs data) Map.empty = Inr checks"
    and cl: "classify required checks [] [] = Inr ([], [])"
    by (auto simp: classify_response_def split: sum.splits)
  from classify_closed_form [OF bc cl]
  have m: "filter (\<lambda>n. verdict (check_runs data) n = Missing) required = []"
    and p: "filter (\<lambda>n. verdict (check_runs data) n = Pending) required = []"
    by simp_all
  have "verdict (check_runs data) name = Satisfied" if "name \<in> set required" for name
  proof (cases "verdict (check_runs data) name")
    case Satisfied
    then show ?thesis .
  next
    case Pending
    then have "name \<in> set (filter (\<lambda>n. verdict (check_runs data) n = Pending) required)"
      using that by simp
    then show ?thesis unfolding p by simp
  next
    case Missing
    then have "name \<in> set (filter (\<lambda>n. verdict (check_runs data) n = Missing) required)"
      using that by simp
    then show ?thesis unfolding m by simp
  qed
  moreover have "\<forall>r\<in>set (check_runs data). map_of r ''name'' \<noteq> None"
    using build_checks_all_named [OF bc] by blast
  ultimately show "(\<forall>r\<in>set (check_runs data). map_of r ''name'' \<noteq> None) \<and>
     (\<forall>name\<in>set required. verdict (check_runs data) name = Satisfied)" by blast
next
  assume "(\<forall>r\<in>set (check_runs data). map_of r ''name'' \<noteq> None) \<and>
     (\<forall>name\<in>set required. verdict (check_runs data) name = Satisfied)"
  then show "classify_response required data = Inr ([], [])"
    using classify_response_satisfied by blast
qed

lemma run_returns_iff:
  assumes "0 < n"
  shows "fst (wait_for_ci required n env tr) = Returned \<longleftrightarrow>
         configured env \<and> (\<exists>k<n. (\<forall>i<k. still_waiting required (tr i)) \<and> all_green required (tr k))"
proof
  assume "configured env \<and> (\<exists>k<n. (\<forall>i<k. still_waiting required (tr i)) \<and> all_green required (tr k))"
  then obtain k where c: "configured env" and k: "k < n"
    and w: "\<forall>i<k. still_waiting required (tr i)" and g: "all_green required (tr k)"
    by blast
  show "fst (wait_for_ci required n env tr) = Returned"
    using run_green [OF c k w g] by simp
next
  assume ret: "fst (wait_for_ci required n env tr) = Returned"
  have c: "configured env"
  proof (rule ccontr)
    assume "\<not> configured env"
    from run_unconfigured [OF this, of required n tr] ret show False by simp
  qed
  have "\<exists>i<n. \<not> still_waiting required (tr i)"
  proof (rule ccontr)
    assume "\<not> (\<exists>i<n. \<not> still_waiting required (tr i))"
    then have "\<forall>i<n. still_waiting required (tr i)" by blast
    from run_timeout [OF c assms this] ret show False by auto
  qed
  then obtain j where j: "j < n \<and> \<not> still_waiting required (tr j)" by blast
  define k where "k = (LEAST i. i < n \<and> \<not> still_waiting required (tr i))"
  have kp: "k < n \<and> \<not> still_waiting required (tr k)"
    unfolding k_def using j by (rule LeastI)
  have w: "\<forall>i<k. still_waiting required (tr i)"
  proof (intro allI impI)
    fix i assume ik: "i < k"
    then have "\<not> (i < n \<and> \<not> still_waiting required (tr i))"
      unfolding k_def by (rule not_less_Least)
    moreover have "i < n" using ik kp by simp
    ultimately show "still_waiting required (tr i)" by blast
  qed
  have k: "k < n" using kp by simp
  have "all_green required (tr k)"
  proof (cases "tr k")
    case ConnectionFailed
    then have "request_fails (tr k)" by simp
    from run_fails [OF c k w this] ret show ?thesis by simp
  next
    case (Response code data)
    show ?thesis
    proof (cases "400 \<le> code \<and> code < 600")
      case True
      then have "request_fails (tr k)" using Response by simp
      from run_fails [OF c k w this] ret show ?thesis by simp
    next
      case ok: False
      show ?thesis
      proof (cases "classify_response required data")
        case (Inl e)
        from run_lookup_error [OF c k w Response ok Inl] ret show ?thesis by simp
      next
        case (Inr pm)
        obtain p m where pm: "pm = (p, m)" by (cases pm)
        have "p = [] \<and> m = []" using kp Response ok Inr pm by simp
        then show ?thesis using Response ok Inr pm by simp
      qed
    qed
  qed
  then show "configured env \<and> (\<exists>k<n. (\<forall>i<k. still_waiting required (tr i)) \<and> all_green required (tr k))"
    using c k w by blast
qed

lemma run_exit_status:
  assumes "0 < n"
  shows "exit_status (fst (wait_for_ci required n env tr)) =
           (if fst (wait_for_ci required n env tr) = Returned then 0 else 1)"
proof (cases "configured env")
  case False
  from run_unconfigured [OF this, of required n tr] show ?thesis by simp
next
  case c: True
  show ?thesis
  proof (cases "\<forall>i<n. still_waiting required (tr i)")
    case True
    from run_timeout [OF c assms True] show ?thesis by auto
  next
    case False
    then obtain j where j: "j < n \<and> \<not> still_waiting required (tr j)" by blast
    define k where "k = (LEAST i. i < n \<and> \<not> still_waiting required (tr i))"
    have kp: "k < n \<and> \<not> still_waiting required (tr k)"
      unfolding k_def using j by (rule LeastI)
    have w: "\<forall>i<k. still_waiting required (tr i)"
    proof (intro allI impI)
      fix i assume ik: "i < k"
      then have "\<not> (i < n \<and> \<not> still_waiting required (tr i))"
        unfolding k_def by (rule not_less_Least)
      moreover have "i < n" using ik kp by simp
      ultimately show "still_waiting required (tr i)" by blast
    qed
    have k: "k < n" using kp by simp
    show ?thesis
    proof (cases "tr k")
      case ConnectionFailed
      then have "request_fails (tr k)" by simp
      from run_fails [OF c k w this] show ?thesis by simp
    next
      case (Response code data)
      show ?thesis
      proof (cases "400 \<le> code \<and> code < 600")
        case True
        then have "request_fails (tr k)" using Response by simp
        from run_fails [OF c k w this] show ?thesis by simp
      next
        case ok: False
        show ?thesis
        proof (cases "classify_response required data")
          case (Inl e)
          from run_lookup_error [OF c k w Response ok Inl] show ?thesis by simp
        next
          case (Inr pm)
          obtain p m where pm: "pm = (p, m)" by (cases pm)
          have "p = [] \<and> m = []" using kp Response ok Inr pm by simp
          then have "all_green required (tr k)" using Response ok Inr pm by simp
          from run_green [OF c k w this] show ?thesis by simp
        qed
      qed
    qed
  qed
qed

lemma all_green_iff:
  "all_green required rep \<longleftrightarrow>
     (\<exists>code data. rep = Response code data \<and> \<not> (400 \<le> code \<and> code < 600) \<and>
        (\<forall>r\<in>set (check_runs data). map_of r ''name'' \<noteq> None) \<and>
        (\<forall>name\<in>set required. verdict (check_runs data) name = Satisfied))"
  by (cases rep) (simp_all add: classify_response_green_iff)

text \<open>
  C7. For a run with at least one attempt (the script has 30): the exit status is 0
  exactly when the run is configured and some attempt, all attempts before it having
  kept the loop waiting, received an accepted response in which every required name is
  satisfied. The exit status is otherwise 1: in particular on a missing input, on a
  timeout, and on a failed request.
\<close>

theorem exit_contract:
  assumes "0 < max_retries"
  shows "(exit_status (fst (wait_for_ci required max_retries env tr)) = 0 \<longleftrightarrow>
            configured env \<and>
            (\<exists>k<max_retries. \<exists>code data.
               (\<forall>i<k. still_waiting required (tr i)) \<and>
               tr k = Response code data \<and> \<not> (400 \<le> code \<and> code < 600) \<and>
               (\<forall>r\<in>set (check_runs data). map_of r ''name'' \<noteq> None) \<and>
               (\<forall>name\<in>set required. verdict (check_runs data) name = Satisfied))) \<and>
         (exit_status (fst (wait_for_ci required max_retries env tr)) = 0 \<or>
          exit_status (fst (wait_for_ci required max_retries env tr)) = 1) \<and>
         (\<not> configured env \<longrightarrow> exit_status (fst (wait_for_ci required max_retries env tr)) = 1) \<and>
         (configured env \<and> (\<forall>i<max_retries. still_waiting required (tr i)) \<longrightarrow>
            exit_status (fst (wait_for_ci required max_retries env tr)) = 1) \<and>
         (configured env \<and>
          (\<exists>k<max_retries. (\<forall>i<k. still_waiting required (tr i)) \<and> request_fails (tr k)) \<longrightarrow>
            exit_status (fst (wait_for_ci required max_retries env tr)) = 1)"
proof -
  let ?R = "wait_for_ci required max_retries env tr"
  have zero: "exit_status (fst ?R) = 0 \<longleftrightarrow> fst ?R = Returned"
    using run_exit_status [OF assms, of required env tr] by simp
  have a: "exit_status (fst ?R) = 0 \<longleftrightarrow>
            configured env \<and>
            (\<exists>k<max_retries. \<exists>code data.
               (\<forall>i<k. still_waiting required (tr i)) \<and>
               tr k = Response code data \<and> \<not> (400 \<le> code \<and> code < 600) \<and>
               (\<forall>r\<in>set (check_runs data). map_of r ''name'' \<noteq> None) \<and>
               (\<forall>name\<in>set required. verdict (check_runs data) name = Satisfied))"
    unfolding zero run_returns_iff [OF assms] all_green_iff by blast
  have b: "exit_status (fst ?R) = 0 \<or> exit_status (fst ?R) = 1"
    using run_exit_status [OF assms, of required env tr] by simp
  have c: "\<not> configured env \<longrightarrow> exit_status (fst ?R) = 1"
    using run_unconfigured [of env required max_retries tr] by simp
  have d: "configured env \<and> (\<forall>i<max_retries. still_waiting required (tr i)) \<longrightarrow>
            exit_status (fst ?R) = 1"
    using run_timeout [OF _ assms, of env required tr] by auto
  have e: "configured env \<and>
          (\<exists>k<max_retries. (\<forall>i<k. still_waiting required (tr i)) \<and> request_fails (tr k)) \<longrightarrow>
            exit_status (fst ?R) = 1"
    using run_fails [of env _ max_retries required tr] by auto
  show ?thesis using a b c d e by blast
qed

theorem exit_contract_witness:
  "exit_status (fst (main ex_env (\<lambda>i. if i < 2 then Response 200 ex_mixed else Response 200 ex_green))) = 0 \<and>
   exit_status (fst (main (ex_env(''GITHUB_SHA'' := None)) (\<lambda>i. Response 200 ex_green))) = 1 \<and>
   exit_status (fst (main ex_env (\<lambda>i. Response 200 ex_mixed))) = 1 \<and>
   exit_status (fst (main ex_env (\<lambda>i. ConnectionFailed))) = 1"
proof -
  let ?tr = "\<lambda>i::nat. if i < 2 then Response 200 ex_mixed else Response 200 ex_green"
  have n: "(0::nat) < 30" by simp
  have c: "configured ex_env"
    by (simp add: configured_def repo_of_def ex_env_def)
  have nc: "\<not> configured (ex_env(''GITHUB_SHA'' := None))"
    by (simp add: configured_def)
  have cl: "classify_response REQUIRED_CHECKS ex_mixed =
              Inr ([''Server Tests (failure)'', ''Client Tests (in_progress)''], [''Build Check''])"
    by (simp add: classify_response_def classify_name_def ex_mixed_def run_of_def REQUIRED_CHECKS_def)
  have w: "\<forall>i<2. still_waiting REQUIRED_CHECKS (?tr i)"
    by (simp add: cl)
  have nm: "\<forall>r\<in>set (check_runs ex_green). map_of r ''name'' \<noteq> None"
    by (simp add: ex_green_def run_of_def)
  have v: "\<forall>name\<in>set REQUIRED_CHECKS. verdict (check_runs ex_green) name = Satisfied"
    by (simp add: REQUIRED_CHECKS_def ex_green_def run_of_def verdict_def named_def)
  have g: "\<exists>k<30. \<exists>code data.
               (\<forall>i<k. still_waiting REQUIRED_CHECKS (?tr i)) \<and>
               ?tr k = Response code data \<and> \<not> (400 \<le> code \<and> code < 600) \<and>
               (\<forall>r\<in>set (check_runs data). map_of r ''name'' \<noteq> None) \<and>
               (\<forall>name\<in>set REQUIRED_CHECKS. verdict (check_runs data) name = Satisfied)"
    apply (rule exI [of _ 2], rule conjI, simp)
    apply (rule exI [of _ 200], rule exI [of _ ex_green])
    using w nm v by simp
  have w30: "\<forall>i<(30::nat). still_waiting REQUIRED_CHECKS ((\<lambda>i::nat. Response 200 ex_mixed) i)"
    by (simp add: cl)
  have f: "\<exists>k<(30::nat). (\<forall>i<k. still_waiting REQUIRED_CHECKS ((\<lambda>i::nat. ConnectionFailed) i)) \<and>
             request_fails ((\<lambda>i::nat. ConnectionFailed) k)"
    by (rule exI [of _ 0]) simp
  have 1: "exit_status (fst (main ex_env ?tr)) = 0"
    using exit_contract [OF n, of REQUIRED_CHECKS ex_env ?tr] c g unfolding main_def by blast
  have 2: "exit_status (fst (main (ex_env(''GITHUB_SHA'' := None)) (\<lambda>i. Response 200 ex_green))) = 1"
    using exit_contract [OF n, of REQUIRED_CHECKS "ex_env(''GITHUB_SHA'' := None)" "\<lambda>i. Response 200 ex_green"] nc
    unfolding main_def by blast
  have 3: "exit_status (fst (main ex_env (\<lambda>i. Response 200 ex_mixed))) = 1"
    using exit_contract [OF n, of REQUIRED_CHECKS ex_env "\<lambda>i. Response 200 ex_mixed"] c w30
    unfolding main_def by blast
  have 4: "exit_status (fst (main ex_env (\<lambda>i. ConnectionFailed))) = 1"
    using exit_contract [OF n, of REQUIRED_CHECKS ex_env "\<lambda>i. ConnectionFailed"] c f
    unfolding main_def by blast
  show ?thesis using 1 2 3 4 by blast
qed

section \<open>Records of the same name, and the conclusion of an unfinished check\<close>

lemma build_checks_append:
  "build_checks (xs @ ys) acc =
     (case build_checks xs acc of Inl e \<Rightarrow> Inl e | Inr m \<Rightarrow> build_checks ys m)"
  by (induction xs arbitrary: acc) (simp_all split: option.splits)

lemma build_checks_overwritten:
  assumes "map_of r' ''name'' = Some key"
  shows "build_checks (mid @ r' # post) (acc(key \<mapsto> v)) = build_checks (mid @ r' # post) acc"
proof (induction mid arbitrary: acc)
  case Nil
  show "build_checks ([] @ r' # post) (acc(key \<mapsto> v)) = build_checks ([] @ r' # post) acc"
    using assms by simp
next
  case (Cons x mid)
  have ih: "build_checks (mid @ r' # post) (m(key \<mapsto> v)) = build_checks (mid @ r' # post) m" for m
    by (rule Cons.IH)
  show "build_checks ((x # mid) @ r' # post) (acc(key \<mapsto> v)) =
        build_checks ((x # mid) @ r' # post) acc"
  proof (cases "map_of x ''name''")
    case None
    then show ?thesis by simp
  next
    case (Some n)
    show ?thesis
    proof (cases "n = key")
      case True
      then show ?thesis using Some by simp
    next
      case False
      then have "acc(key \<mapsto> v, n \<mapsto> x) = (acc(n \<mapsto> x))(key \<mapsto> v)" by (simp add: fun_upd_twist)
      then show ?thesis using Some ih [of "acc(n \<mapsto> x)"] by simp
    qed
  qed
qed

lemma build_checks_drop_earlier:
  assumes "map_of r ''name'' = Some key" and "map_of r' ''name'' = Some key"
  shows "build_checks (pre @ r # mid @ r' # post) acc = build_checks (pre @ mid @ r' # post) acc"
proof (cases "build_checks pre acc")
  case (Inl e)
  then show ?thesis by (simp add: build_checks_append)
next
  case (Inr m)
  have "build_checks (r # mid @ r' # post) m = build_checks (mid @ r' # post) m"
    using assms(1) build_checks_overwritten [OF assms(2), of mid post m r] by simp
  then show ?thesis using Inr by (simp add: build_checks_append)
qed

text \<open>
  C9. When two check-runs of a response carry the same name, the earlier one is ignored:
  taking it out of the response changes neither the dict of line 46 nor the result of
  the classification (error or lists), and when no later check-run carries the name, the
  dict holds the later of the two under that name.
\<close>

theorem last_record_wins:
  assumes "map_of r ''name'' = Some key" and "map_of r' ''name'' = Some key"
  shows "build_checks (pre @ r # mid @ r' # post) acc = build_checks (pre @ mid @ r' # post) acc \<and>
         classify_response required (Some (pre @ r # mid @ r' # post)) =
           classify_response required (Some (pre @ mid @ r' # post)) \<and>
         ((\<forall>x\<in>set post. map_of x ''name'' \<noteq> Some key) \<longrightarrow>
          (\<forall>checks. build_checks (pre @ r # mid @ r' # post) Map.empty = Inr checks \<longrightarrow>
                    checks key = Some r'))"
proof -
  have a: "build_checks (pre @ r # mid @ r' # post) acc = build_checks (pre @ mid @ r' # post) acc"
    for acc by (rule build_checks_drop_earlier [OF assms])
  have b: "classify_response required (Some (pre @ r # mid @ r' # post)) =
           classify_response required (Some (pre @ mid @ r' # post))"
    by (simp add: classify_response_def a)
  have c: "checks key = Some r'"
    if post: "\<forall>x\<in>set post. map_of x ''name'' \<noteq> Some key"
      and bc: "build_checks (pre @ r # mid @ r' # post) Map.empty = Inr checks" for checks
  proof -
    have "filter (\<lambda>x. map_of x ''name'' = Some key) post = []"
      using post by (simp add: filter_empty_conv)
    then have "filter (\<lambda>x. map_of x ''name'' = Some key) (pre @ r # mid @ r' # post) =
               (filter (\<lambda>x. map_of x ''name'' = Some key) (pre @ r # mid)) @ [r']"
      using assms(2) by simp
    then show ?thesis using build_checks_lookup [OF bc, of key] by simp
  qed
  show ?thesis using a b c by blast
qed

theorem last_record_wins_witness:
  "classify_response REQUIRED_CHECKS
     (Some ([run_of ''Lint & Type Check'' (PyStr ''completed'') (PyStr ''success'')]
            @ run_of ''Server Tests'' (PyStr ''completed'') (PyStr ''failure'')
            # [] @ run_of ''Server Tests'' (PyStr ''completed'') (PyStr ''success'')
            # [run_of ''Client Tests'' (PyStr ''completed'') (PyStr ''success''),
               run_of ''Build Check'' (PyStr ''completed'') (PyStr ''success'')]))
   = Inr ([], [])"
proof -
  have n1: "map_of (run_of ''Server Tests'' (PyStr ''completed'') (PyStr ''failure'')) ''name''
              = Some (PyStr ''Server Tests'')"
    by (simp add: run_of_def)
  have n2: "map_of (run_of ''Server Tests'' (PyStr ''completed'') (PyStr ''success'')) ''name''
              = Some (PyStr ''Server Tests'')"
    by (simp add: run_of_def)
  have g: "classify_response REQUIRED_CHECKS ex_green = Inr ([], [])"
    by (simp add: classify_response_def classify_name_def ex_green_def run_of_def REQUIRED_CHECKS_def)
  from last_record_wins [OF n1 n2,
         of "[run_of ''Lint & Type Check'' (PyStr ''completed'') (PyStr ''success'')]" "[]"
            "[run_of ''Client Tests'' (PyStr ''completed'') (PyStr ''success''),
              run_of ''Build Check'' (PyStr ''completed'') (PyStr ''success'')]" _ REQUIRED_CHECKS]
  have "classify_response REQUIRED_CHECKS
     (Some ([run_of ''Lint & Type Check'' (PyStr ''completed'') (PyStr ''success'')]
            @ run_of ''Server Tests'' (PyStr ''completed'') (PyStr ''failure'')
            # [] @ run_of ''Server Tests'' (PyStr ''completed'') (PyStr ''success'')
            # [run_of ''Client Tests'' (PyStr ''completed'') (PyStr ''success''),
               run_of ''Build Check'' (PyStr ''completed'') (PyStr ''success'')]))
     = classify_response REQUIRED_CHECKS
     (Some ([run_of ''Lint & Type Check'' (PyStr ''completed'') (PyStr ''success'')]
            @ [] @ run_of ''Server Tests'' (PyStr ''completed'') (PyStr ''success'')
            # [run_of ''Client Tests'' (PyStr ''completed'') (PyStr ''success''),
               run_of ''Build Check'' (PyStr ''completed'') (PyStr ''success'')]))"
    by blast
  also have "\<dots> = Inr ([], [])" using g by (simp add: ex_green_def)
  finally show ?thesis .
qed



lemma build_checks_related:
  assumes "\<forall>k. acc' k = acc k \<or> (acc k = Some r \<and> acc' k = Some r')"
  shows "(case build_checks post acc of
            Inl e \<Rightarrow> build_checks post acc' = Inl e
          | Inr checks \<Rightarrow>
              (\<exists>checks'. build_checks post acc' = Inr checks' \<and>
                 (\<forall>k. checks' k = checks k \<or> (checks k = Some r \<and> checks' k = Some r'))))"
  using assms
proof (induction post arbitrary: acc acc')
  case Nil
  have "\<forall>k. acc' k = acc k \<or> (acc k = Some r \<and> acc' k = Some r')" by (rule Nil.prems)
  then show "(case build_checks [] acc of
            Inl e \<Rightarrow> build_checks [] acc' = Inl e
          | Inr checks \<Rightarrow>
              (\<exists>checks'. build_checks [] acc' = Inr checks' \<and>
                 (\<forall>k. checks' k = checks k \<or> (checks k = Some r \<and> checks' k = Some r'))))"
    by simp
next
  case (Cons x post)
  have prems: "\<forall>k. acc' k = acc k \<or> (acc k = Some r \<and> acc' k = Some r')" by (rule Cons.prems)
  have ih: "(case build_checks post a of
            Inl e \<Rightarrow> build_checks post a' = Inl e
          | Inr checks \<Rightarrow>
              (\<exists>checks'. build_checks post a' = Inr checks' \<and>
                 (\<forall>k. checks' k = checks k \<or> (checks k = Some r \<and> checks' k = Some r'))))"
    if "\<forall>k. a' k = a k \<or> (a k = Some r \<and> a' k = Some r')" for a a'
    using that by (rule Cons.IH)
  show "(case build_checks (x # post) acc of
            Inl e \<Rightarrow> build_checks (x # post) acc' = Inl e
          | Inr checks \<Rightarrow>
              (\<exists>checks'. build_checks (x # post) acc' = Inr checks' \<and>
                 (\<forall>k. checks' k = checks k \<or> (checks k = Some r \<and> checks' k = Some r'))))"
  proof (cases "map_of x ''name''")
    case None
    then show ?thesis by simp
  next
    case (Some n)
    have "\<forall>k. (acc'(n \<mapsto> x)) k = (acc(n \<mapsto> x)) k \<or>
               ((acc(n \<mapsto> x)) k = Some r \<and> (acc'(n \<mapsto> x)) k = Some r')"
      using prems by simp
    from ih [OF this] have "(case build_checks post (acc(n \<mapsto> x)) of
            Inl e \<Rightarrow> build_checks post (acc'(n \<mapsto> x)) = Inl e
          | Inr checks \<Rightarrow>
              (\<exists>checks'. build_checks post (acc'(n \<mapsto> x)) = Inr checks' \<and>
                 (\<forall>k. checks' k = checks k \<or> (checks k = Some r \<and> checks' k = Some r'))))" .
    moreover have "build_checks (x # post) acc = build_checks post (acc(n \<mapsto> x))"
      and "build_checks (x # post) acc' = build_checks post (acc'(n \<mapsto> x))"
      using Some by simp_all
    ultimately show ?thesis by (simp only:)
  qed
qed

lemma classify_name_related:
  assumes rel: "checks' (PyStr name) = checks (PyStr name) \<or>
                (checks (PyStr name) = Some r \<and> checks' (PyStr name) = Some r')"
    and "r \<noteq> []" and "r' \<noteq> []"
    and st: "map_of r' ''status'' = map_of r ''status''"
    and nc: "map_of r ''status'' \<noteq> Some (PyStr ''completed'')"
  shows "classify_name name checks' p m = classify_name name checks p m"
proof (cases "checks' (PyStr name) = checks (PyStr name)")
  case True
  then show ?thesis by (simp add: classify_name_def)
next
  case False
  then have c: "checks (PyStr name) = Some r" and c': "checks' (PyStr name) = Some r'"
    using rel by blast+
  show ?thesis
  proof (cases "map_of r ''status''")
    case None
    then show ?thesis using c c' assms(2,3) st by (simp add: classify_name_def)
  next
    case (Some s)
    then have "s \<noteq> PyStr ''completed''" using nc by simp
    then show ?thesis using Some c c' assms(2,3) st by (simp add: classify_name_def)
  qed
qed

lemma classify_related:
  assumes rel: "\<forall>k. checks' k = checks k \<or> (checks k = Some r \<and> checks' k = Some r')"
    and "r \<noteq> []" and "r' \<noteq> []"
    and st: "map_of r' ''status'' = map_of r ''status''"
    and nc: "map_of r ''status'' \<noteq> Some (PyStr ''completed'')"
  shows "classify names checks' p m = classify names checks p m"
proof (induction names arbitrary: p m)
  case Nil
  then show ?case by simp
next
  case (Cons name names)
  have "classify_name name checks' p m = classify_name name checks p m"
    using rel by (intro classify_name_related [OF _ assms(2,3) st nc]) blast
  then show ?case using Cons.IH by (simp split: sum.splits)
qed

text \<open>
  C10. The conclusion of a check-run whose status is not completed is never read: the
  classification of a response (error or lists) stays the same when such a check-run is
  replaced by one that differs from it only under the key \<^verbatim>\<open>conclusion\<close>, whether the
  value there is another one or the key is absent altogether.
\<close>

theorem conclusion_not_read:
  assumes "map_of r ''status'' \<noteq> Some (PyStr ''completed'')"
    and "\<forall>k. k \<noteq> ''conclusion'' \<longrightarrow> map_of r' k = map_of r k"
  shows "classify_response required (Some (pre @ r' # post)) =
         classify_response required (Some (pre @ r # post))"
proof -
  have nm: "map_of r' ''name'' = map_of r ''name''" and st: "map_of r' ''status'' = map_of r ''status''"
    using assms(2) by simp_all
  show ?thesis
  proof (cases "build_checks pre Map.empty")
    case (Inl e)
    then show ?thesis by (simp add: classify_response_def build_checks_append)
  next
    case (Inr m0)
    show ?thesis
    proof (cases "map_of r ''name''")
      case None
      then show ?thesis using Inr nm by (simp add: classify_response_def build_checks_append)
    next
      case (Some n)
      have ne: "r \<noteq> []" "r' \<noteq> []" using Some nm by auto
      have full: "build_checks (pre @ r # post) Map.empty = build_checks post (m0(n \<mapsto> r))"
        and full': "build_checks (pre @ r' # post) Map.empty = build_checks post (m0(n \<mapsto> r'))"
        using Inr Some nm by (simp_all add: build_checks_append)
      have rel0: "\<forall>k. (m0(n \<mapsto> r')) k = (m0(n \<mapsto> r)) k \<or>
                      ((m0(n \<mapsto> r)) k = Some r \<and> (m0(n \<mapsto> r')) k = Some r')"
        by simp
      have rel: "(case build_checks post (m0(n \<mapsto> r)) of
            Inl e \<Rightarrow> build_checks post (m0(n \<mapsto> r')) = Inl e
          | Inr checks \<Rightarrow>
              (\<exists>checks'. build_checks post (m0(n \<mapsto> r')) = Inr checks' \<and>
                 (\<forall>k. checks' k = checks k \<or> (checks k = Some r \<and> checks' k = Some r'))))"
        using rel0 by (rule build_checks_related)
      show ?thesis
      proof (cases "build_checks post (m0(n \<mapsto> r))")
        case (Inl e)
        then have "build_checks post (m0(n \<mapsto> r')) = Inl e" using rel by simp
        then show ?thesis using Inl full full' by (simp add: classify_response_def)
      next
        case (Inr checks)
        then obtain checks' where c': "build_checks post (m0(n \<mapsto> r')) = Inr checks'"
          and r: "\<forall>k. checks' k = checks k \<or> (checks k = Some r \<and> checks' k = Some r')"
          using rel by auto
        have "classify required checks' [] [] = classify required checks [] []"
          by (rule classify_related [OF r ne st assms(1)])
        then show ?thesis using Inr c' full full' by (simp add: classify_response_def)
      qed
    qed
  qed
qed

theorem conclusion_not_read_witness:
  "classify_response REQUIRED_CHECKS
     (Some ([run_of ''Lint & Type Check'' (PyStr ''completed'') (PyStr ''success''),
             run_of ''Server Tests'' (PyStr ''completed'') (PyStr ''failure'')]
            @ [(''name'', PyStr ''Client Tests''), (''status'', PyStr ''in_progress'')] # []))
   = Inr ([''Server Tests (failure)'', ''Client Tests (in_progress)''], [''Build Check''])"
proof -
  let ?r = "run_of ''Client Tests'' (PyStr ''in_progress'') PyNone"
  let ?r' = "[(''name'', PyStr ''Client Tests''), (''status'', PyStr ''in_progress'')]"
  have s: "map_of ?r ''status'' \<noteq> Some (PyStr ''completed'')"
    by (simp add: run_of_def)
  have k: "\<forall>k. k \<noteq> ''conclusion'' \<longrightarrow> map_of ?r' k = map_of ?r k"
    by (simp add: run_of_def)
  have cl: "classify_response REQUIRED_CHECKS ex_mixed =
              Inr ([''Server Tests (failure)'', ''Client Tests (in_progress)''], [''Build Check''])"
    by (simp add: classify_response_def classify_name_def ex_mixed_def run_of_def REQUIRED_CHECKS_def)
  from conclusion_not_read [OF s k, of REQUIRED_CHECKS
         "[run_of ''Lint & Type Check'' (PyStr ''completed'') (PyStr ''success''),
           run_of ''Server Tests'' (PyStr ''completed'') (PyStr ''failure'')]" "[]"]
  show ?thesis using cl by (simp add: ex_mixed_def)
qed

section \<open>What each failure prints\<close>

text \<open>
  C8, as stated, fails for the transport error. On a transport that gives no response,
  the configured script ends by the exception of \<^verbatim>\<open>requests.get\<close>, and its standard output
  holds the two opening lines only, the same two lines that open the output of a
  successful run: the script prints no line about the failure.
\<close>

theorem transport_error_prints_nothing_counterexample:
  "fst (main ex_env ex_down) = Uncaught RequestException \<and>
   stdout (snd (main ex_env ex_down)) =
     [''Checking required checks for alex/codecollab@0123456'',
      ''Required: Lint & Type Check, Server Tests, Client Tests, Build Check''] \<and>
   stdout (snd (main ex_env ex_down)) = take 2 (stdout (snd (main ex_env ex_up)))"
proof -
  have c: "configured ex_env"
    by (simp add: configured_def repo_of_def ex_env_def)
  have n: "(0::nat) < 30" by simp
  have w: "\<forall>i<(0::nat). still_waiting REQUIRED_CHECKS (tr i)" for tr by simp
  have f: "request_fails (ex_down 0)" by (simp add: ex_down_def)
  have cl: "classify_response REQUIRED_CHECKS ex_green = Inr ([], [])"
    by (simp add: classify_response_def classify_name_def ex_green_def run_of_def REQUIRED_CHECKS_def)
  have g: "all_green REQUIRED_CHECKS (ex_up 0)"
    by (simp add: cl ex_up_def)
  have s: "stdout (started REQUIRED_CHECKS ex_env) =
     [''Checking required checks for alex/codecollab@0123456'',
      ''Required: Lint & Type Check, Server Tests, Client Tests, Build Check'']"
    by (simp add: started_def repo_of_def ex_env_def REQUIRED_CHECKS_def)
  have a: "main ex_env ex_down =
           (Uncaught RequestException, (started REQUIRED_CHECKS ex_env)\<lparr>requests := 1\<rparr>)"
    using run_fails [where tr = ex_down and k = 0, OF c n w f] by (simp add: main_def ex_down_def)
  have b: "main ex_env ex_up =
           (Returned, print (check_mark @ '' All required checks passed!'')
              ((started REQUIRED_CHECKS ex_env)\<lparr>requests := 1\<rparr>))"
    using run_green [where tr = ex_up and k = 0, OF c n w g] by (simp add: main_def)
  show ?thesis unfolding a b by (simp add: s print_def)
qed

text \<open>
  C8, amended. A missing input and a timeout each print their own line on standard
  output before \<^verbatim>\<open>sys.exit(1)\<close>: the line about the missing variables, and the timeout
  line followed by the list of unsatisfied checks; the two differ. A failed request
  prints nothing: the exception leaves \<^verbatim>\<open>main\<close> uncaught, and the output is what had been
  printed before the request. None of the three is recovered: the run ends there, after
  0, \<open>n\<close> and \<open>k + 1\<close> requests.
\<close>

theorem error_diagnostics:
  "(\<not> configured env \<longrightarrow>
      fst (wait_for_ci required n env tr) = SysExit 1 \<and>
      requests (snd (wait_for_ci required n env tr)) = 0 \<and>
      stdout (snd (wait_for_ci required n env tr)) =
        [''Missing required env vars: GITHUB_TOKEN, GITHUB_REPOSITORY_OWNER, GITHUB_REPOSITORY, GITHUB_SHA'']) \<and>
   (configured env \<and> 0 < n \<and> (\<forall>i<n. still_waiting required (tr i)) \<longrightarrow>
      fst (wait_for_ci required n env tr) = SysExit 1 \<and>
      requests (snd (wait_for_ci required n env tr)) = n \<and>
      (\<exists>earlier detail.
         stdout (snd (wait_for_ci required n env tr)) =
           earlier @ [cross_mark @ '' Timeout waiting for checks'',
                      ''  Still missing or failed: '' @ detail])) \<and>
   (configured env \<and> k < n \<and> (\<forall>i<k. still_waiting required (tr i)) \<and> request_fails (tr k) \<longrightarrow>
      (\<exists>e. fst (wait_for_ci required n env tr) = Uncaught e) \<and>
      requests (snd (wait_for_ci required n env tr)) = k + 1 \<and>
      stdout (snd (wait_for_ci required n env tr)) =
        stdout (after_waits required n tr 0 (started required env) k)) \<and>
   ''Missing required env vars: GITHUB_TOKEN, GITHUB_REPOSITORY_OWNER, GITHUB_REPOSITORY, GITHUB_SHA''
     \<noteq> cross_mark @ '' Timeout waiting for checks''"
proof -
  let ?R = "wait_for_ci required n env tr"
  have a: "\<not> configured env \<longrightarrow>
      fst ?R = SysExit 1 \<and> requests (snd ?R) = 0 \<and>
      stdout (snd ?R) =
        [''Missing required env vars: GITHUB_TOKEN, GITHUB_REPOSITORY_OWNER, GITHUB_REPOSITORY, GITHUB_SHA'']"
    using run_unconfigured [of env required n tr] by simp
  have b: "configured env \<and> 0 < n \<and> (\<forall>i<n. still_waiting required (tr i)) \<longrightarrow>
      fst ?R = SysExit 1 \<and> requests (snd ?R) = n \<and>
      (\<exists>earlier detail.
         stdout (snd ?R) =
           earlier @ [cross_mark @ '' Timeout waiting for checks'',
                      ''  Still missing or failed: '' @ detail])"
  proof (intro impI)
    assume h: "configured env \<and> 0 < n \<and> (\<forall>i<n. still_waiting required (tr i))"
    then have c: "configured env" and n: "0 < n" and w: "\<forall>i<n. still_waiting required (tr i)"
      by simp_all
    from run_timeout [OF c n w] obtain pending missing where
      run: "?R = (SysExit 1, timeout_report pending missing
               ((after_waits required n tr 0 (started required env) (n - 1))\<lparr>requests := n\<rparr>))"
      by blast
    have "stdout (snd ?R) =
            stdout (after_waits required n tr 0 (started required env) (n - 1))
            @ [cross_mark @ '' Timeout waiting for checks'',
               ''  Still missing or failed: '' @ py_join '', '' (pending @ missing)]"
      by (simp add: run timeout_report_stdout)
    then have "\<exists>earlier detail.
         stdout (snd ?R) =
           earlier @ [cross_mark @ '' Timeout waiting for checks'',
                      ''  Still missing or failed: '' @ detail]" by blast
    then show "fst ?R = SysExit 1 \<and> requests (snd ?R) = n \<and>
      (\<exists>earlier detail.
         stdout (snd ?R) =
           earlier @ [cross_mark @ '' Timeout waiting for checks'',
                      ''  Still missing or failed: '' @ detail])"
      by (simp add: run)
  qed
  have c: "configured env \<and> k < n \<and> (\<forall>i<k. still_waiting required (tr i)) \<and> request_fails (tr k) \<longrightarrow>
      (\<exists>e. fst ?R = Uncaught e) \<and> requests (snd ?R) = k + 1 \<and>
      stdout (snd ?R) = stdout (after_waits required n tr 0 (started required env) k)"
  proof (intro impI)
    assume "configured env \<and> k < n \<and> (\<forall>i<k. still_waiting required (tr i)) \<and> request_fails (tr k)"
    then have c: "configured env" and k: "k < n" and w: "\<forall>i<k. still_waiting required (tr i)"
      and f: "request_fails (tr k)"
      by simp_all
    from run_fails [OF c k w f]
    show "(\<exists>e. fst ?R = Uncaught e) \<and> requests (snd ?R) = k + 1 \<and>
      stdout (snd ?R) = stdout (after_waits required n tr 0 (started required env) k)"
      by simp
  qed
  have d: "''Missing required env vars: GITHUB_TOKEN, GITHUB_REPOSITORY_OWNER, GITHUB_REPOSITORY, GITHUB_SHA''
     \<noteq> cross_mark @ '' Timeout waiting for checks''"
    by (simp add: cross_mark_def)
  show ?thesis using a b c d by blast
qed

theorem error_diagnostics_witness:
  "stdout (snd (main (ex_env(''GITHUB_TOKEN'' := None)) (\<lambda>i. Response 200 ex_green))) =
     [''Missing required env vars: GITHUB_TOKEN, GITHUB_REPOSITORY_OWNER, GITHUB_REPOSITORY, GITHUB_SHA''] \<and>
   (\<exists>earlier detail.
      stdout (snd (main ex_env (\<lambda>i. Response 200 ex_mixed))) =
        earlier @ [cross_mark @ '' Timeout waiting for checks'',
                   ''  Still missing or failed: '' @ detail]) \<and>
   (\<exists>e. fst (main ex_env (\<lambda>i. ConnectionFailed)) = Uncaught e) \<and>
   stdout (snd (main ex_env (\<lambda>i. ConnectionFailed))) = stdout (started REQUIRED_CHECKS ex_env)"
proof -
  have n: "(0::nat) < 30" by simp
  have c: "configured ex_env"
    by (simp add: configured_def repo_of_def ex_env_def)
  have nc: "\<not> configured (ex_env(''GITHUB_TOKEN'' := None))"
    by (simp add: configured_def)
  have cl: "classify_response REQUIRED_CHECKS ex_mixed =
              Inr ([''Server Tests (failure)'', ''Client Tests (in_progress)''], [''Build Check''])"
    by (simp add: classify_response_def classify_name_def ex_mixed_def run_of_def REQUIRED_CHECKS_def)
  have w30: "\<forall>i<(30::nat). still_waiting REQUIRED_CHECKS ((\<lambda>i::nat. Response 200 ex_mixed) i)"
    by (simp add: cl)
  have w0: "\<forall>i<(0::nat). still_waiting REQUIRED_CHECKS ((\<lambda>i::nat. ConnectionFailed) i)" by simp
  have f: "request_fails ((\<lambda>i::nat. ConnectionFailed) 0)" by simp
  have 1: "stdout (snd (main (ex_env(''GITHUB_TOKEN'' := None)) (\<lambda>i. Response 200 ex_green))) =
     [''Missing required env vars: GITHUB_TOKEN, GITHUB_REPOSITORY_OWNER, GITHUB_REPOSITORY, GITHUB_SHA'']"
    using error_diagnostics [of "ex_env(''GITHUB_TOKEN'' := None)" REQUIRED_CHECKS 30
            "\<lambda>i. Response 200 ex_green" 0] nc
    unfolding main_def by blast
  have 2: "\<exists>earlier detail.
      stdout (snd (main ex_env (\<lambda>i. Response 200 ex_mixed))) =
        earlier @ [cross_mark @ '' Timeout waiting for checks'',
                   ''  Still missing or failed: '' @ detail]"
    using error_diagnostics [of ex_env REQUIRED_CHECKS 30 "\<lambda>i. Response 200 ex_mixed" 0] c n w30
    unfolding main_def by blast
  have 3: "(\<exists>e. fst (main ex_env (\<lambda>i. ConnectionFailed)) = Uncaught e) \<and>
   stdout (snd (main ex_env (\<lambda>i. ConnectionFailed))) =
     stdout (after_waits REQUIRED_CHECKS 30 (\<lambda>i. ConnectionFailed) 0 (started REQUIRED_CHECKS ex_env) 0)"
    using error_diagnostics [of ex_env REQUIRED_CHECKS 30 "\<lambda>i. ConnectionFailed" 0] c n w0 f
    unfolding main_def by blast
  show ?thesis using 1 2 3 by simp
qed

end
